theory Spec2Isabelle
  imports Complex_Main "HOL-Library.Word" "HOL-Library.Sublist"
begin

section \<open>JavaScript strings\<close>

text \<open>
  A JavaScript string is a sequence of UTF-16 code units. \<open>js s\<close> is the string
  literal whose characters are the ASCII characters of \<open>s\<close>.
\<close>

type_synonym jsstring = "16 word list"

definition js :: "string \<Rightarrow> jsstring" where
  "js s = map (\<lambda>c. word_of_nat (of_char c)) s"

section \<open>Transcript aggregator (src/App.tsx, the onTranscript callback)\<close>

text \<open>
  The transcript is the React state
  \<^verbatim>\<open>{sender: 'user' | 'agent', text: string}[]\<close>; the callback passes an updater
  \<^verbatim>\<open>prev => ...\<close> to \<^verbatim>\<open>setTranscripts\<close>. The updater is the function modelled
  here: it reads the last entry, and either replaces it by a copy with the delta
  concatenated, or appends a new entry. The parameter \<open>isFinal\<close> is received and
  never read.
\<close>

datatype sender = User | Agent

record transcript_entry =
  sender :: sender
  entry_text :: jsstring

definition onTranscript ::
  "transcript_entry list \<Rightarrow> jsstring \<Rightarrow> bool \<Rightarrow> sender \<Rightarrow> transcript_entry list" where
  "onTranscript prev txt isFinal sndr =
     (if prev \<noteq> [] \<and> sender (last prev) = sndr
      then prev[length prev - 1 := (last prev)\<lparr>entry_text := entry_text (last prev) @ txt\<rparr>]
      else prev @ [\<lparr>sender = sndr, entry_text = txt\<rparr>])"

section \<open>Knowledge base lookup (src/services/mockRagService.ts)\<close>

datatype category = Policy | Order | Info | Tech

record DatabaseEntry =
  entry_id :: jsstring
  category :: category
  entry_keywords :: "jsstring list"
  content :: jsstring
  addedAt :: nat

text \<open>\<^verbatim>\<open>s.includes(k)\<close>: \<open>k\<close> occurs in \<open>s\<close> as a contiguous run of code units.\<close>

fun str_includes :: "jsstring \<Rightarrow> jsstring \<Rightarrow> bool" where
  "str_includes [] k = (k = [])"
| "str_includes (c # s) k = (take (length k) (c # s) = k \<or> str_includes s k)"

definition INDEX_POLICIES :: jsstring where
  "INDEX_POLICIES = js ''INDEX_POLICIES: Available policies: Return Policy, Privacy Policy, Shipping Policy, Warranty Policy. Please specify which one you need.''"

definition RAG_NOT_FOUND :: jsstring where
  "RAG_NOT_FOUND = js ''RAG_SEARCH_RESULT: No specific document found. Please ask the user for more details (e.g., specific error code, order number) or offer to escalate the ticket.''"

text \<open>
  The entry test of the filter:
  \<^verbatim>\<open>entry.keywords.some(keyword => lowerQuery.includes(keyword))\<close>.
\<close>

definition entry_matches :: "jsstring \<Rightarrow> DatabaseEntry \<Rightarrow> bool" where
  "entry_matches lowerQuery entry = list_ex (\<lambda>keyword. str_includes lowerQuery keyword) (entry_keywords entry)"

datatype error = TypeError

text \<open>
  \<open>searchKnowledgeBase\<close> reads the module variable \<open>runtimeDatabase\<close>, here the
  argument \<open>db\<close>. \<open>String.prototype.toLowerCase\<close> is a function of the JavaScript
  platform (the Unicode lower-casing of every cased letter); it is the argument
  \<open>toLowerCase\<close>, so that what is proved holds for the platform's function whatever
  it maps each string to. The declared type of \<open>query\<close> is \<open>string\<close>, but the caller
  passes a value of type \<open>any\<close>: the query is \<open>Some q\<close> for a string and \<open>None\<close> for a
  value that is not a string, on which \<open>query.toLowerCase()\<close> throws a
  \<open>TypeError\<close>. The promise the function returns settles after the simulated
  latency: it resolves to \<open>r\<close> for \<open>Inr r\<close> and rejects for \<open>Inl e\<close>.
\<close>

definition searchKnowledgeBase ::
  "(jsstring \<Rightarrow> jsstring) \<Rightarrow> DatabaseEntry list \<Rightarrow> jsstring option \<Rightarrow> error + jsstring" where
  "searchKnowledgeBase toLowerCase db query =
     (case query of
        None \<Rightarrow> Inl TypeError
      | Some q \<Rightarrow>
          (let lowerQuery = toLowerCase q;
               matches = filter (entry_matches lowerQuery) db
           in if length matches > 0 then Inr (content (matches ! 0))
              else if str_includes lowerQuery (js ''policy'') then Inr INDEX_POLICIES
              else Inr RAG_NOT_FOUND))"

text \<open>
  What \<open>toLowerCase\<close> does to a string all of whose code units are ASCII: the letters
  A to Z become a to z. It stands for the platform's function in the examples, whose
  strings are ASCII.
\<close>

definition toLowerCase_ascii :: "jsstring \<Rightarrow> jsstring" where
  "toLowerCase_ascii s = map (\<lambda>u. if 65 \<le> u \<and> u \<le> 90 then u + 32 else u) s"

section \<open>Live session service (src/services/geminiLiveService.ts)\<close>

text \<open>
  The model follows \<open>handleMessage\<close> and \<open>disconnect\<close>. Calls the service makes on
  its collaborators (the UI callbacks, the audio source nodes, the session, the
  knowledge lookup) are recorded as a list of effects, in the order the calls happen.
  The fields of the capture side (microphone stream, script processor, input audio
  context) are not read by \<open>handleMessage\<close> and are left out.
\<close>

datatype ConnectionState = DISCONNECTED | CONNECTING | CONNECTED | ERROR

datatype log_type = LogUser | LogAgent | LogSystem | LogRag

record AudioBuffer =
  duration :: real

text \<open>
  The arguments of a function call, as line 197 reads them with
  \<^verbatim>\<open>(fc.args as any).query\<close>: \<open>NoArgs\<close> when \<open>fc.args\<close> is undefined (reading
  \<open>query\<close> throws a \<open>TypeError\<close>); \<open>Query q\<close> when \<open>query\<close> is the string \<open>q\<close>;
  \<open>NoQuery shown\<close> when \<open>query\<close> is absent or is not a string, \<open>shown\<close> being what the
  template literal of line 198 prints for it (\<open>undefined\<close> when it is absent).
\<close>

datatype fc_args = NoArgs | NoQuery jsstring | Query jsstring

fun query_of :: "fc_args \<Rightarrow> jsstring option" where
  "query_of (Query q) = Some q"
| "query_of a = None"

record FunctionCall =
  fc_id :: jsstring
  fc_name :: jsstring
  fc_args :: fc_args

text \<open>
  An inbound message, with the fields \<open>handleMessage\<close> reads:
  \<open>audio\<close> is the buffer that \<open>decodeAudioData\<close> yields for the inline data of the
  first part of the model turn (\<open>None\<close> when there is no inline data);
  \<open>inputTranscription\<close> and \<open>outputTranscription\<close> are the \<open>text\<close> of the
  transcription objects (\<open>None\<close> when the object or its text is absent);
  \<open>toolCall\<close> is the list \<open>functionCalls\<close>.
\<close>

record LiveServerMessage =
  audio :: "AudioBuffer option"
  interrupted :: bool
  inputTranscription :: "jsstring option"
  outputTranscription :: "jsstring option"
  toolCall :: "FunctionCall list option"

datatype effect =
    OnStateChange ConnectionState
  | OnLog log_type jsstring
  | OnTranscript jsstring bool sender
  | SourceStart nat real real
  | SourceStop nat
  | LookupCall "jsstring option"
  | LookupResolved jsstring
  | LookupRejected
  | SendToolResponse nat jsstring jsstring jsstring
  | SessionClose nat
  | ContextClose

text \<open>
  \<open>SourceStart src d t\<close>: \<open>source.start(t)\<close> on the source node \<open>src\<close> whose buffer has
  duration \<open>d\<close>. \<open>LookupCall q\<close>: \<open>searchKnowledgeBase\<close> is called with the query \<open>q\<close>;
  \<open>LookupResolved r\<close>: the awaited promise of the handler's call resolves to \<open>r\<close>;
  \<open>LookupRejected\<close>: it rejects. \<open>SendToolResponse session id name result\<close>:
  \<open>session.sendToolResponse\<close> with these function responses.

  The service object. \<open>sessionPromise\<close> is \<open>None\<close> for \<open>null\<close> and \<open>Some session\<close> for
  a promise of the session handle \<open>session\<close>. \<open>sources\<close> is the JavaScript \<open>Set\<close> of
  live source nodes, in insertion order (the order \<open>forEach\<close> visits). Source nodes are
  objects; \<open>created\<close> counts the nodes made so far and names the next one.
\<close>

record service =
  sessionPromise :: "nat option"
  outputAudioContext :: bool
  outputNode :: bool
  nextStartTime :: real
  sources :: "nat list"
  created :: nat

definition set_add :: "nat \<Rightarrow> nat list \<Rightarrow> nat list" where
  "set_add x xs = (if x \<in> set xs then xs else xs @ [x])"

definition set_delete :: "nat \<Rightarrow> nat list \<Rightarrow> nat list" where
  "set_delete x xs = removeAll x xs"

text \<open>
  Lines 147 to 166, the body of the audio branch: \<open>now\<close> is
  \<open>outputAudioContext.currentTime\<close> as read on line 148.
\<close>

definition enqueue :: "service \<Rightarrow> real \<Rightarrow> AudioBuffer \<Rightarrow> service \<times> effect list" where
  "enqueue st now audioBuffer =
     (let st1 = st\<lparr>nextStartTime := max (nextStartTime st) now\<rparr>;
          source = created st1;
          st2 = st1\<lparr>created := Suc (created st1)\<rparr>;
          started = SourceStart source (duration audioBuffer) (nextStartTime st2);
          st3 = st2\<lparr>sources := set_add source (sources st2)\<rparr>;
          st4 = st3\<lparr>nextStartTime := nextStartTime st3 + duration audioBuffer\<rparr>
      in (st4, [started]))"

text \<open>The listener for \<open>ended\<close> of a source node: \<open>this.sources.delete(source)\<close>.\<close>

definition ended :: "service \<Rightarrow> nat \<Rightarrow> service" where
  "ended st source = st\<lparr>sources := set_delete source (sources st)\<rparr>"

text \<open>Lines 171 to 174, the body of the interruption branch.\<close>

definition interrupt :: "service \<Rightarrow> service \<times> effect list" where
  "interrupt st =
     (st\<lparr>sources := [], nextStartTime := 0\<rparr>,
      OnLog LogSystem (js ''User interrupted model.'') # map SourceStop (sources st))"

text \<open>Lines 178 to 189: \<open>if (text)\<close> holds for a string that is not empty.\<close>

definition transcripts :: "LiveServerMessage \<Rightarrow> effect list" where
  "transcripts m =
     (case inputTranscription m of
        Some t \<Rightarrow> if t \<noteq> [] then [OnTranscript t False User] else []
      | None \<Rightarrow> [])
     @ (case outputTranscription m of
        Some t \<Rightarrow> if t \<noteq> [] then [OnTranscript t False Agent] else []
      | None \<Rightarrow> [])"

definition dquote :: jsstring where
  "dquote = [0x22]"

text \<open>
  The loop over \<open>functionCalls\<close> (lines 195 to 215) suspends at
  \<open>await searchKnowledgeBase(query)\<close>. \<open>tool_loop\<close> runs the loop from the head of
  the list up to where control leaves it: the list is exhausted (\<open>Finished\<close>), the
  loop awaits the lookup of a call, with the calls not yet visited (\<open>Suspended\<close>), or
  line 197 throws (\<open>Thrown\<close>: the promise of \<open>handleMessage\<close> rejects and the calls not
  yet visited are never visited).
\<close>

type_synonym pending = "FunctionCall \<times> FunctionCall list"

datatype outcome = Finished | Suspended pending | Thrown

fun tool_loop :: "FunctionCall list \<Rightarrow> effect list \<times> outcome" where
  "tool_loop [] = ([], Finished)"
| "tool_loop (fc # rest) =
     (if fc_name fc = js ''search_knowledge_base''
      then (case fc_args fc of
              NoArgs \<Rightarrow> ([], Thrown)
            | NoQuery shown \<Rightarrow>
                ([OnLog LogRag (js ''Querying Knowledge Base: '' @ dquote @ shown @ dquote),
                  LookupCall None],
                 Suspended (fc, rest))
            | Query q \<Rightarrow>
                ([OnLog LogRag (js ''Querying Knowledge Base: '' @ dquote @ q @ dquote),
                  LookupCall (Some q)],
                 Suspended (fc, rest)))
      else tool_loop rest)"

text \<open>
  The continuation after the await. When the lookup rejects, the await throws and
  the loop is left. When it resolves (lines 202 to 213, then the next iterations),
  \<open>this.sessionPromise?.then(...)\<close> reads \<open>sessionPromise\<close> now and queues the callback
  as a microtask, so \<open>sendToolResponse\<close> runs once the loop has reached its next
  suspension or its end.
\<close>

definition resume ::
  "(jsstring \<Rightarrow> jsstring) \<Rightarrow> DatabaseEntry list \<Rightarrow> service \<Rightarrow> pending \<Rightarrow> effect list \<times> outcome" where
  "resume toLowerCase db st p =
     (let fc = fst p
      in case searchKnowledgeBase toLowerCase db (query_of (fc_args fc)) of
           Inl e \<Rightarrow> ([LookupRejected], Thrown)
         | Inr result \<Rightarrow>
             (let found = [LookupResolved result,
                           OnLog LogRag (js ''Found: '' @ take 50 result @ js ''...'')];
                  send = (case sessionPromise st of
                            Some session \<Rightarrow>
                              [SendToolResponse session (fc_id fc) (fc_name fc) result]
                          | None \<Rightarrow> []);
                  continued = tool_loop (snd p)
              in (found @ fst continued @ send, snd continued)))"

text \<open>
  \<open>handleMessage\<close> up to where control first leaves it. The await of
  \<open>decodeAudioData\<close> on line 150 is taken to resume before any other message, timer or
  user action is handled.
\<close>

definition handleMessage ::
  "service \<Rightarrow> real \<Rightarrow> LiveServerMessage \<Rightarrow> (service \<times> effect list) \<times> outcome" where
  "handleMessage st now m =
     (let a = (case audio m of
                 Some audioBuffer \<Rightarrow>
                   if outputAudioContext st \<and> outputNode st then enqueue st now audioBuffer
                   else (st, [])
               | None \<Rightarrow> (st, []));
          i = (if interrupted m then interrupt (fst a) else (fst a, []));
          t = (case toolCall m of
                 Some functionCalls \<Rightarrow>
                   (OnLog LogSystem (js ''Model requesting tool use...'')
                      # fst (tool_loop functionCalls),
                    snd (tool_loop functionCalls))
               | None \<Rightarrow> ([], Finished))
      in ((fst i, snd a @ snd i @ transcripts m @ fst t), snd t))"

text \<open>
  \<open>disconnect\<close> (lines 219 to 236). The callback that closes the session is queued on
  the promise and runs after the method returns.
\<close>

definition disconnect :: "service \<Rightarrow> service \<times> effect list" where
  "disconnect st =
     (st\<lparr>sessionPromise := None, outputAudioContext := False\<rparr>,
      (if outputAudioContext st then [ContextClose] else [])
      @ [OnStateChange DISCONNECTED]
      @ (case sessionPromise st of Some session \<Rightarrow> [SessionClose session] | None \<Rightarrow> []))"

subsection \<open>Runs of the service\<close>

text \<open>
  What can happen to a connected service object: a message arrives (with the reading
  of the playback clock), the lookup awaited by one of the suspended handlers
  settles, a source node finishes playing, or \<open>disconnect\<close> is called. A
  configuration is the service object with one slot for every invocation of
  \<open>handleMessage\<close> so far, in order of arrival: \<open>Some p\<close> while the invocation is
  suspended on \<open>p\<close>, \<open>None\<close> once control has left it for good. \<open>LookupDone i\<close> is the
  settling of the lookup awaited by the invocation of slot \<open>i\<close>.
  There is no event for \<open>connect\<close>: it is called once on a service object (App.tsx
  makes a new \<open>GeminiLiveService\<close> for every session), before any of these events.
\<close>

datatype event =
    Message real LiveServerMessage
  | LookupDone nat
  | Ended nat
  | Disconnect

type_synonym config = "service \<times> pending option list"

fun slot :: "outcome \<Rightarrow> pending option" where
  "slot (Suspended p) = Some p"
| "slot out = None"

fun step ::
  "(jsstring \<Rightarrow> jsstring) \<Rightarrow> DatabaseEntry list \<Rightarrow> config \<Rightarrow> event \<Rightarrow> config \<times> effect list" where
  "step lc db (st, hs) (Message now m) =
     (let r = handleMessage st now m
      in ((fst (fst r), hs @ [slot (snd r)]), snd (fst r)))"
| "step lc db (st, hs) (LookupDone i) =
     (if i < length hs
      then (case hs ! i of
              None \<Rightarrow> ((st, hs), [])
            | Some p \<Rightarrow>
                (let r = resume lc db st p
                 in ((st, hs[i := slot (snd r)]), fst r)))
      else ((st, hs), []))"
| "step lc db (st, hs) (Ended source) = ((ended st source, hs), [])"
| "step lc db (st, hs) Disconnect = ((fst (disconnect st), hs), snd (disconnect st))"

fun run ::
  "(jsstring \<Rightarrow> jsstring) \<Rightarrow> DatabaseEntry list \<Rightarrow> config \<Rightarrow> event list \<Rightarrow> config \<times> effect list" where
  "run lc db c [] = (c, [])"
| "run lc db c (ev # evs) =
     (let r = step lc db c ev; r' = run lc db (fst r) evs in (fst r', snd r @ snd r'))"

definition trace ::
  "(jsstring \<Rightarrow> jsstring) \<Rightarrow> DatabaseEntry list \<Rightarrow> config \<Rightarrow> event list \<Rightarrow> effect list" where
  "trace lc db c evs = snd (run lc db c evs)"

text \<open>
  The effects of the invocation of slot \<open>k\<close> in a run: those of the steps
  \<open>LookupDone k\<close>, which resume it.
\<close>

fun own ::
  "(jsstring \<Rightarrow> jsstring) \<Rightarrow> DatabaseEntry list \<Rightarrow> config \<Rightarrow> nat \<Rightarrow> event list \<Rightarrow> effect list" where
  "own lc db c k [] = []"
| "own lc db c k (ev # evs) =
     (if ev = LookupDone k then snd (step lc db c ev) else [])
     @ own lc db (fst (step lc db c ev)) k evs"

subsection \<open>Projections of a trace\<close>

fun starts :: "effect list \<Rightarrow> (real \<times> real) list" where
  "starts [] = []"
| "starts (SourceStart src d t # es) = (t, d) # starts es"
| "starts (e # es) = starts es"

fun stops :: "effect list \<Rightarrow> nat list" where
  "stops [] = []"
| "stops (SourceStop src # es) = src # stops es"
| "stops (e # es) = stops es"

fun sends :: "effect list \<Rightarrow> (nat \<times> jsstring \<times> jsstring \<times> jsstring) list" where
  "sends [] = []"
| "sends (SendToolResponse session i n r # es) = (session, i, n, r) # sends es"
| "sends (e # es) = sends es"

fun lookups :: "effect list \<Rightarrow> effect list" where
  "lookups [] = []"
| "lookups (LookupCall q # es) = LookupCall q # lookups es"
| "lookups (LookupResolved r # es) = LookupResolved r # lookups es"
| "lookups (LookupRejected # es) = LookupRejected # lookups es"
| "lookups (e # es) = lookups es"

fun transcript_calls :: "effect list \<Rightarrow> (jsstring \<times> bool \<times> sender) list" where
  "transcript_calls [] = []"
| "transcript_calls (OnTranscript t f s # es) = (t, f, s) # transcript_calls es"
| "transcript_calls (e # es) = transcript_calls es"

definition recognized :: "FunctionCall list \<Rightarrow> FunctionCall list" where
  "recognized fcs = filter (\<lambda>fc. fc_name fc = js ''search_knowledge_base'') fcs"

subsection \<open>The lookups and responses of one inbound event\<close>

text \<open>
  \<open>script lc db R\<close>: the lookup events of a handler that works through the recognized
  calls \<open>R\<close> one after the other: for each call the call of \<open>searchKnowledgeBase\<close> and
  then its settling, up to the first call whose arguments make the code throw.
  \<open>responses lc db session R\<close>: the tool responses for the calls of \<open>R\<close> that get a
  result, in the order of \<open>R\<close>. \<open>settled es\<close> counts the settlings among the effects
  \<open>es\<close>. \<open>has_query fc\<close>: the arguments of \<open>fc\<close> hold a string query, as the tool
  declaration requires.
\<close>

fun script :: "(jsstring \<Rightarrow> jsstring) \<Rightarrow> DatabaseEntry list \<Rightarrow> FunctionCall list \<Rightarrow> effect list" where
  "script lc db [] = []"
| "script lc db (fc # R) =
     (case fc_args fc of
        NoArgs \<Rightarrow> []
      | _ \<Rightarrow> LookupCall (query_of (fc_args fc))
             # (case searchKnowledgeBase lc db (query_of (fc_args fc)) of
                  Inl e \<Rightarrow> [LookupRejected]
                | Inr r \<Rightarrow> LookupResolved r # script lc db R))"

fun responses ::
  "(jsstring \<Rightarrow> jsstring) \<Rightarrow> DatabaseEntry list \<Rightarrow> nat \<Rightarrow> FunctionCall list
     \<Rightarrow> (nat \<times> jsstring \<times> jsstring \<times> jsstring) list" where
  "responses lc db session [] = []"
| "responses lc db session (fc # R) =
     (case fc_args fc of
        NoArgs \<Rightarrow> []
      | _ \<Rightarrow> (case searchKnowledgeBase lc db (query_of (fc_args fc)) of
               Inl e \<Rightarrow> []
             | Inr r \<Rightarrow> (session, fc_id fc, fc_name fc, r) # responses lc db session R))"

fun settled :: "effect list \<Rightarrow> nat" where
  "settled [] = 0"
| "settled (LookupResolved r # es) = Suc (settled es)"
| "settled (LookupRejected # es) = Suc (settled es)"
| "settled (e # es) = settled es"

fun has_query :: "FunctionCall \<Rightarrow> bool" where
  "has_query fc = (case fc_args fc of Query q \<Rightarrow> True | _ \<Rightarrow> False)"

text \<open>
  What is left of the script, and of the responses, for a handler suspended on \<open>p\<close>.
\<close>

definition tail_script :: "(jsstring \<Rightarrow> jsstring) \<Rightarrow> DatabaseEntry list \<Rightarrow> pending \<Rightarrow> effect list" where
  "tail_script lc db p =
     (case searchKnowledgeBase lc db (query_of (fc_args (fst p))) of
        Inl e \<Rightarrow> [LookupRejected]
      | Inr r \<Rightarrow> LookupResolved r # script lc db (recognized (snd p)))"

definition tail_responses ::
  "(jsstring \<Rightarrow> jsstring) \<Rightarrow> DatabaseEntry list \<Rightarrow> nat \<Rightarrow> pending
     \<Rightarrow> (nat \<times> jsstring \<times> jsstring \<times> jsstring) list" where
  "tail_responses lc db session p =
     (case searchKnowledgeBase lc db (query_of (fc_args (fst p))) of
        Inl e \<Rightarrow> []
      | Inr r \<Rightarrow> (session, fc_id (fst p), fc_name (fst p), r)
                 # responses lc db session (recognized (snd p)))"

text \<open>
  Two suspended handlers that await the same call and have the same recognized calls
  among those not yet visited.
\<close>

definition same_recognized :: "pending \<Rightarrow> pending \<Rightarrow> bool" where
  "same_recognized p q = (fst p = fst q \<and> recognized (snd p) = recognized (snd q))"

subsection \<open>Playback timeline\<close>

text \<open>
  \<open>no_interrupt\<close>: the event is not a message that carries \<open>interrupted\<close>.
  \<open>valid_audio\<close>: the buffer decoded for a message has a duration that is not
  negative (an \<open>AudioBuffer\<close> has a length of frames and a positive sample rate, and
  its duration is their quotient).
  \<open>chained n ss\<close>: in the list \<open>ss\<close> of (start time, duration), the first start is at
  or after \<open>n\<close> and each later start is at or after the end of the one before it.
\<close>

fun no_interrupt :: "event \<Rightarrow> bool" where
  "no_interrupt (Message now m) = (\<not> interrupted m)"
| "no_interrupt ev = True"

fun valid_audio :: "event \<Rightarrow> bool" where
  "valid_audio (Message now m) = (case audio m of Some b \<Rightarrow> 0 \<le> duration b | None \<Rightarrow> True)"
| "valid_audio ev = True"

fun chained :: "real \<Rightarrow> (real \<times> real) list \<Rightarrow> bool" where
  "chained n [] = True"
| "chained n ((t, d) # ss) = (n \<le> t \<and> chained (t + d) ss)"

section \<open>PCM frame encoder\<close>

text \<open>
  Modelled from the spec: \<open>float32ToPCM16Blob\<close> of \<open>utils/audioUtils\<close>, imported by
  the live session service and called on line 120, is not among the source files.
  The spec (4.1) gives its contract: each sample is scaled by 32767, rounded, and
  clamped to the signed 16-bit range. A sample is a 32-bit float and the product with
  32767 is exact in double precision, so the samples are taken as reals here;
  \<open>round\<close> rounds a half upwards, as \<open>Math.round\<close> does.
\<close>

definition float32ToPCM16 :: "real list \<Rightarrow> 16 word list" where
  "float32ToPCM16 samples =
     map (\<lambda>x. word_of_int (max (- 32768) (min 32767 (round (x * 32767))))) samples"

section \<open>Transcript aggregator: properties\<close>

text \<open>
  Claim C6. An append whose sender equals the sender of the most recent entry extends
  that entry's text by the delta, with no separator, and keeps every other entry;
  any other append (empty transcript, or the other sender last) adds a new entry
  holding the delta. Starting from the empty transcript, appending "a" then "b" as
  the user gives one entry "ab"; appending "a" as the user then "b" as the agent
  gives two entries.
\<close>

theorem C6_append_rule:
  "(prev \<noteq> [] \<and> sender (last prev) = s \<longrightarrow>
      onTranscript prev d f s = butlast prev @ [\<lparr>sender = s, entry_text = entry_text (last prev) @ d\<rparr>])
   \<and> (prev = [] \<or> sender (last prev) \<noteq> s \<longrightarrow>
      onTranscript prev d f s = prev @ [\<lparr>sender = s, entry_text = d\<rparr>])
   \<and> onTranscript (onTranscript [] (js ''a'') f1 User) (js ''b'') f2 User = [\<lparr>sender = User, entry_text = js ''ab''\<rparr>]
   \<and> onTranscript (onTranscript [] (js ''a'') f1 User) (js ''b'') f2 Agent
        = [\<lparr>sender = User, entry_text = js ''a''\<rparr>, \<lparr>sender = Agent, entry_text = js ''b''\<rparr>]"
proof -
  have merge: "onTranscript prev d f s = butlast prev @ [\<lparr>sender = s, entry_text = entry_text (last prev) @ d\<rparr>]"
    if "prev \<noteq> []" "sender (last prev) = s"
  proof -
    from that(1) obtain ys y where p: "prev = ys @ [y]"
      by (metis append_butlast_last_id)
    with that(2) show ?thesis
      by (simp add: onTranscript_def)
  qed
  have fresh: "onTranscript prev d f s = prev @ [\<lparr>sender = s, entry_text = d\<rparr>]"
    if "prev = [] \<or> sender (last prev) \<noteq> s"
    using that by (auto simp: onTranscript_def)
  have one: "onTranscript (onTranscript [] (js ''a'') f1 User) (js ''b'') f2 User = [\<lparr>sender = User, entry_text = js ''ab''\<rparr>]"
    by (simp add: onTranscript_def js_def)
  have two: "onTranscript (onTranscript [] (js ''a'') f1 User) (js ''b'') f2 Agent
        = [\<lparr>sender = User, entry_text = js ''a''\<rparr>, \<lparr>sender = Agent, entry_text = js ''b''\<rparr>]"
    by (simp add: onTranscript_def)
  from merge fresh one two show ?thesis by blast
qed

theorem C6_append_rule_witness:
  "onTranscript [\<lparr>sender = Agent, entry_text = js ''hi''\<rparr>, \<lparr>sender = User, entry_text = js ''he''\<rparr>] (js ''llo'') False User
     = [\<lparr>sender = Agent, entry_text = js ''hi''\<rparr>, \<lparr>sender = User, entry_text = js ''hello''\<rparr>]
   \<and> onTranscript [\<lparr>sender = Agent, entry_text = js ''hi''\<rparr>] (js ''yo'') True User
     = [\<lparr>sender = Agent, entry_text = js ''hi''\<rparr>, \<lparr>sender = User, entry_text = js ''yo''\<rparr>]"
  using C6_append_rule [of "[\<lparr>sender = Agent, entry_text = js ''hi''\<rparr>, \<lparr>sender = User, entry_text = js ''he''\<rparr>]"
                           User "js ''llo''" False]
        C6_append_rule [of "[\<lparr>sender = Agent, entry_text = js ''hi''\<rparr>]" User "js ''yo''" True]
  by (simp add: js_def)



section \<open>Transcript aggregator: the empty delta\<close>

text \<open>
  Claim C7 as stated fails: on the empty transcript (and likewise after an entry of
  the other sender) an empty delta adds an entry.
\<close>

theorem C7_empty_delta_counterexample:
  "onTranscript [] [] True User \<noteq> []"
  by (simp add: onTranscript_def)

text \<open>
  Claim C7, amended. An empty delta leaves the transcript as it is when the most
  recent entry has the incoming sender, for every \<open>isFinal\<close>. Otherwise (empty
  transcript, or the other sender last) it appends one entry with the empty text and
  keeps the entries before it. In both cases the text of the transcript, the
  concatenation of the entries' texts, is unchanged.
\<close>

theorem C7_empty_delta:
  "(prev \<noteq> [] \<and> sender (last prev) = s \<longrightarrow> onTranscript prev [] f s = prev)
   \<and> (prev = [] \<or> sender (last prev) \<noteq> s \<longrightarrow>
        onTranscript prev [] f s = prev @ [\<lparr>sender = s, entry_text = []\<rparr>])
   \<and> concat (map entry_text (onTranscript prev [] f s)) = concat (map entry_text prev)"
proof -
  have same: "onTranscript prev [] f s = prev" if "prev \<noteq> []" "sender (last prev) = s"
  proof -
    from that(1) obtain ys y where p: "prev = ys @ [y]"
      by (metis append_butlast_last_id)
    with that(2) show ?thesis by (simp add: onTranscript_def)
  qed
  have other: "onTranscript prev [] f s = prev @ [\<lparr>sender = s, entry_text = []\<rparr>]"
    if "prev = [] \<or> sender (last prev) \<noteq> s"
    using that by (auto simp: onTranscript_def)
  have "concat (map entry_text (onTranscript prev [] f s)) = concat (map entry_text prev)"
  proof (cases "prev \<noteq> [] \<and> sender (last prev) = s")
    case True
    then show ?thesis by (simp add: same)
  next
    case False
    then have "onTranscript prev [] f s = prev @ [\<lparr>sender = s, entry_text = []\<rparr>]"
      by (intro other) blast
    then show ?thesis by simp
  qed
  with same other show ?thesis by blast
qed

theorem C7_empty_delta_witness:
  "onTranscript [\<lparr>sender = User, entry_text = js ''hi''\<rparr>] [] True User
     = [\<lparr>sender = User, entry_text = js ''hi''\<rparr>]
   \<and> onTranscript [\<lparr>sender = User, entry_text = js ''hi''\<rparr>] [] True Agent
     = [\<lparr>sender = User, entry_text = js ''hi''\<rparr>, \<lparr>sender = Agent, entry_text = []\<rparr>]"
  using C7_empty_delta [of "[\<lparr>sender = User, entry_text = js ''hi''\<rparr>]" User True]
        C7_empty_delta [of "[\<lparr>sender = User, entry_text = js ''hi''\<rparr>]" Agent True]
  by simp


section \<open>Knowledge base lookup: properties\<close>

lemma str_includes_iff: "str_includes s k \<longleftrightarrow> (\<exists>p r. s = p @ k @ r)"
proof (induction s)
  case Nil
  show ?case by auto
next
  case (Cons c s)
  show ?case
  proof
    assume "str_includes (c # s) k"
    then consider "take (length k) (c # s) = k" | "str_includes s k" by auto
    then show "\<exists>p r. c # s = p @ k @ r"
    proof cases
      case 1
      then have "c # s = [] @ k @ drop (length k) (c # s)"
        by (metis append_Nil append_take_drop_id)
      then show ?thesis by blast
    next
      case 2
      with Cons.IH obtain p r where "s = p @ k @ r" by blast
      then have "c # s = (c # p) @ k @ r" by simp
      then show ?thesis by blast
    qed
  next
    assume "\<exists>p r. c # s = p @ k @ r"
    then obtain p r where e: "c # s = p @ k @ r" by blast
    show "str_includes (c # s) k"
    proof (cases p)
      case Nil
      with e have "take (length k) (c # s) = k" by simp
      then show ?thesis by simp
    next
      case (Cons c' p')
      with e have "s = p' @ k @ r" by simp
      with Cons.IH have "str_includes s k" by blast
      then show ?thesis by simp
    qed
  qed
qed

lemma find_filter: "find P xs = (case filter P xs of [] \<Rightarrow> None | x # _ \<Rightarrow> Some x)"
  by (induction xs) simp_all

text \<open>
  Claim C9. For every query string \<open>q\<close>, \<open>searchKnowledgeBase\<close> resolves, and never
  rejects: it resolves to the content of the first entry, in database order, one of
  whose keywords (as stored) is a substring of the lowercased query; when there is no
  such entry, to the policy index if the lowercased query contains \<open>policy\<close>, and to
  the not-found sentence otherwise. This holds whatever string \<open>toLowerCase\<close> yields
  for the query.
\<close>

theorem C9_search_first_match:
  "searchKnowledgeBase toLowerCase db (Some q) =
     Inr (case find (entry_matches (toLowerCase q)) db of
            Some e \<Rightarrow> content e
          | None \<Rightarrow> if str_includes (toLowerCase q) (js ''policy'') then INDEX_POLICIES
                    else RAG_NOT_FOUND)
   \<and> entry_matches (toLowerCase q) e
       = (\<exists>k \<in> set (entry_keywords e). \<exists>p r. toLowerCase q = p @ k @ r)
   \<and> str_includes (toLowerCase q) (js ''policy'')
       = (\<exists>p r. toLowerCase q = p @ js ''policy'' @ r)"
proof -
  have "searchKnowledgeBase toLowerCase db (Some q) =
     Inr (case find (entry_matches (toLowerCase q)) db of
            Some e \<Rightarrow> content e
          | None \<Rightarrow> if str_includes (toLowerCase q) (js ''policy'') then INDEX_POLICIES
                    else RAG_NOT_FOUND)"
    by (simp add: searchKnowledgeBase_def Let_def find_filter split: list.splits)
  moreover have "entry_matches (toLowerCase q) e
       = (\<exists>k \<in> set (entry_keywords e). \<exists>p r. toLowerCase q = p @ k @ r)"
    by (simp add: entry_matches_def list_ex_iff str_includes_iff)
  ultimately show ?thesis by (simp add: str_includes_iff)
qed

text \<open>
  The query \<open>My RETURN Policy\<close> is lowercased before it is matched: the entry with the
  keyword \<open>RETURN\<close>, which occurs in the query as given, is not matched, and of the
  two entries with a keyword in \<open>my return policy\<close> the first in database order is
  returned, not the one with the longer keyword.
\<close>

theorem C9_search_first_match_witness:
  "searchKnowledgeBase toLowerCase_ascii
     [\<lparr>entry_id = js ''raw'', category = Info, entry_keywords = [js ''RETURN''],
       content = js ''RAW_QUERY_MATCH'', addedAt = 0\<rparr>,
      \<lparr>entry_id = js ''pol-2'', category = Policy, entry_keywords = [js ''shipping'', js ''delivery''],
       content = js ''POLICY_SHIPPING'', addedAt = 0\<rparr>,
      \<lparr>entry_id = js ''pol-1'', category = Policy, entry_keywords = [js ''return'', js ''refund''],
       content = js ''POLICY_REFUND_V4'', addedAt = 0\<rparr>,
      \<lparr>entry_id = js ''x'', category = Info, entry_keywords = [js ''return policy''],
       content = js ''LONGER_MATCH'', addedAt = 0\<rparr>]
     (Some (js ''My RETURN Policy'')) = Inr (js ''POLICY_REFUND_V4'')
   \<and> searchKnowledgeBase toLowerCase_ascii
     [\<lparr>entry_id = js ''pol-2'', category = Policy, entry_keywords = [js ''shipping'', js ''delivery''],
       content = js ''POLICY_SHIPPING'', addedAt = 0\<rparr>]
     (Some (js ''Which POLICY?'')) = Inr INDEX_POLICIES"
  using C9_search_first_match [where toLowerCase = toLowerCase_ascii
     and db = "[\<lparr>entry_id = js ''raw'', category = Info, entry_keywords = [js ''RETURN''],
       content = js ''RAW_QUERY_MATCH'', addedAt = 0\<rparr>,
      \<lparr>entry_id = js ''pol-2'', category = Policy, entry_keywords = [js ''shipping'', js ''delivery''],
       content = js ''POLICY_SHIPPING'', addedAt = 0\<rparr>,
      \<lparr>entry_id = js ''pol-1'', category = Policy, entry_keywords = [js ''return'', js ''refund''],
       content = js ''POLICY_REFUND_V4'', addedAt = 0\<rparr>,
      \<lparr>entry_id = js ''x'', category = Info, entry_keywords = [js ''return policy''],
       content = js ''LONGER_MATCH'', addedAt = 0\<rparr>]"
     and q = "js ''My RETURN Policy''"]
    C9_search_first_match [where toLowerCase = toLowerCase_ascii
     and db = "[\<lparr>entry_id = js ''pol-2'', category = Policy, entry_keywords = [js ''shipping'', js ''delivery''],
       content = js ''POLICY_SHIPPING'', addedAt = 0\<rparr>]"
     and q = "js ''Which POLICY?''"]
  by (simp add: entry_matches_def toLowerCase_ascii_def js_def)


section \<open>PCM frame encoder: properties\<close>

lemma sint_clamped:
  "sint (word_of_int (max (- 32768) (min 32767 i)) :: 16 word) = max (- 32768) (min 32767 i)"
proof -
  have "- (2 ^ 15) \<le> max (- 32768) (min 32767 i)" by simp
  moreover have "max (- 32768) (min 32767 i) < 2 ^ 15" by simp
  ultimately have "signed_take_bit 15 (max (- 32768) (min 32767 i)) = max (- 32768) (min 32767 i)"
    by (rule signed_take_bit_int_eq_self)
  then show ?thesis by (simp only: sint_sbintrunc') simp
qed

lemma round_scaled_range:
  assumes "- 1 \<le> x" "x \<le> (1::real)"
  shows "- 32767 \<le> round (x * 32767) \<and> round (x * 32767) \<le> 32767"
proof -
  from assms have lo: "- 32767 \<le> x * 32767" and hi: "x * 32767 \<le> 32767" by simp_all
  from round_mono [OF lo] round_mono [OF hi] show ?thesis by simp
qed

text \<open>
  Claim C8. The encoder keeps the length of the block; each output sample, read as a
  signed 16-bit integer, is the input sample times 32767, rounded, clamped to
  -32768..32767; for a sample in [-1, 1] the clamp changes nothing. A block of 4096
  samples 0.5 encodes to 4096 samples \<open>round (0.5 * 32767) = 16384\<close>.
\<close>

theorem C8_pcm_encoder:
  "length (float32ToPCM16 xs) = length xs
   \<and> (\<forall>i < length xs. sint (float32ToPCM16 xs ! i)
          = max (- 32768) (min 32767 (round (xs ! i * 32767))))
   \<and> (\<forall>i < length xs. - 1 \<le> xs ! i \<and> xs ! i \<le> 1 \<longrightarrow>
          sint (float32ToPCM16 xs ! i) = round (xs ! i * 32767))
   \<and> float32ToPCM16 (replicate 4096 0.5) = replicate 4096 (word_of_int (round (0.5 * 32767 :: real)))
   \<and> round (0.5 * 32767 :: real) = 16384"
proof -
  have a: "sint (float32ToPCM16 xs ! i) = max (- 32768) (min 32767 (round (xs ! i * 32767)))"
    if "i < length xs" for i
    using that by (simp add: float32ToPCM16_def sint_clamped)
  have b: "sint (float32ToPCM16 xs ! i) = round (xs ! i * 32767)"
    if "i < length xs" "- 1 \<le> xs ! i" "xs ! i \<le> 1" for i
    using a [OF that(1)] round_scaled_range [OF that(2,3)] by simp
  have r: "round (0.5 * 32767 :: real) = 16384"
    by (simp add: round_def)
  have c: "float32ToPCM16 (replicate 4096 0.5) = replicate 4096 (word_of_int (round (0.5 * 32767 :: real)))"
    unfolding float32ToPCM16_def map_replicate r by simp
  have l: "length (float32ToPCM16 xs) = length xs"
    by (simp add: float32ToPCM16_def)
  from l a b c r show ?thesis by blast
qed

theorem C8_pcm_encoder_witness:
  "map sint (float32ToPCM16 [1 / 2, - 1, 1, 0]) = [16384, - 32767, 32767, 0]"
proof -
  have "sint (float32ToPCM16 [1 / 2, - 1, 1, 0] ! 0) = round ([1 / 2, - 1, 1, 0 :: real] ! 0 * 32767)"
    using C8_pcm_encoder [of "[1 / 2, - 1, 1, 0]"] by simp
  then show ?thesis
    by (simp add: float32ToPCM16_def sint_clamped round_def)
qed

section \<open>Live session service: properties\<close>

subsection \<open>Traces\<close>

lemma starts_append: "starts (a @ b) = starts a @ starts b"
  by (induction a rule: starts.induct) simp_all
lemma stops_append: "stops (a @ b) = stops a @ stops b"
  by (induction a rule: stops.induct) simp_all
lemma sends_append: "sends (a @ b) = sends a @ sends b"
  by (induction a rule: sends.induct) simp_all
lemma lookups_append: "lookups (a @ b) = lookups a @ lookups b"
  by (induction a rule: lookups.induct) simp_all
lemma transcript_calls_append: "transcript_calls (a @ b) = transcript_calls a @ transcript_calls b"
  by (induction a rule: transcript_calls.induct) simp_all

lemma trace_Nil: "trace lc db c [] = []"
  by (simp add: trace_def)

lemma trace_Cons: "trace lc db c (ev # evs) = snd (step lc db c ev) @ trace lc db (fst (step lc db c ev)) evs"
  by (simp add: trace_def Let_def)

lemma sends_tool_loop: "sends (fst (tool_loop fcs)) = []"
  by (induction fcs) (simp_all split: fc_args.splits)

lemma sends_resume_None: "sessionPromise st = None \<Longrightarrow> sends (fst (resume lc db st p)) = []"
  by (simp add: resume_def Let_def sends_append sends_tool_loop split: sum.splits)

lemma sends_stops: "sends (map SourceStop xs) = []"
  by (induction xs) simp_all

lemma sends_enqueue: "sends (snd (enqueue st now b)) = []"
  by (simp add: enqueue_def Let_def)

lemma sends_interrupt: "sends (snd (interrupt st)) = []"
  by (simp add: interrupt_def sends_stops)

lemma sends_transcripts: "sends (transcripts m) = []"
  by (simp add: transcripts_def split: option.splits)

lemma sends_handleMessage: "sends (snd (fst (handleMessage st now m))) = []"
  by (simp add: handleMessage_def Let_def sends_append sends_enqueue sends_interrupt
      sends_transcripts sends_tool_loop split: option.splits)

lemma sends_disconnect: "sends (snd (disconnect st)) = []"
  by (simp add: disconnect_def sends_append split: option.splits)

lemma sessionPromise_enqueue: "sessionPromise (fst (enqueue st now b)) = sessionPromise st"
  by (simp add: enqueue_def Let_def)

lemma sessionPromise_interrupt: "sessionPromise (fst (interrupt st)) = sessionPromise st"
  by (simp add: interrupt_def)

lemma sessionPromise_handleMessage:
  "sessionPromise (fst (fst (handleMessage st now m))) = sessionPromise st"
  by (simp add: handleMessage_def Let_def sessionPromise_enqueue sessionPromise_interrupt
      split: option.splits)

lemma sessionPromise_disconnect: "sessionPromise (fst (disconnect st)) = None"
  by (simp add: disconnect_def)

lemma step_dead:
  assumes "sessionPromise (fst c) = None"
  shows "sends (snd (step lc db c ev)) = [] \<and> sessionPromise (fst (fst (step lc db c ev))) = None"
proof (cases c)
  case (Pair st hs)
  with assms have n: "sessionPromise st = None" by simp
  show ?thesis
  proof (cases ev)
    case (Message now m)
    with Pair n show ?thesis
      by (simp add: Let_def sends_handleMessage sessionPromise_handleMessage)
  next
    case (LookupDone i)
    with Pair n show ?thesis
      by (simp add: Let_def sends_resume_None split: option.splits)
  next
    case (Ended src)
    with Pair n show ?thesis by (simp add: ended_def)
  next
    case Disconnect
    with Pair show ?thesis by (simp add: sends_disconnect sessionPromise_disconnect)
  qed
qed

lemma run_dead: "sessionPromise (fst c) = None \<Longrightarrow> sends (trace lc db c evs) = []"
proof (induction evs arbitrary: c)
  case Nil
  show ?case by (simp add: trace_Nil)
next
  case (Cons ev evs)
  from step_dead [OF Cons.prems, of lc db ev]
  have a: "sends (snd (step lc db c ev)) = []"
    and b: "sessionPromise (fst (fst (step lc db c ev))) = None" by simp_all
  from Cons.IH [OF b] a show ?case
    by (simp add: trace_Cons sends_append)
qed

text \<open>
  Claim C3. Once \<open>disconnect\<close> has run, no \<open>sendToolResponse\<close> is made at all, on
  any handle: whatever lookups were pending at that moment (the suspended handlers
  \<open>hs\<close>), and whatever happens afterwards (their lookups resolve in any order,
  further messages arrive, sources end, \<open>disconnect\<close> is called again), the
  continuation reads \<open>sessionPromise\<close>, finds \<open>null\<close> and skips the send.
\<close>

theorem C3_dead_session_drop:
  "sends (trace lc db (st, hs) (Disconnect # evs)) = []"
proof -
  have "sessionPromise (fst (fst (step lc db (st, hs) Disconnect))) = None"
    by (simp add: sessionPromise_disconnect)
  then have "sends (trace lc db (fst (step lc db (st, hs) Disconnect)) evs) = []"
    by (rule run_dead)
  then show ?thesis
    by (simp add: trace_Cons sends_append sends_disconnect)
qed

theorem C3_dead_session_drop_witness:
  "sends (trace toLowerCase_ascii []
      (\<lparr>sessionPromise = Some 7, outputAudioContext = True, outputNode = True,
        nextStartTime = 0, sources = [], created = 0\<rparr>,
       [Some (\<lparr>fc_id = js ''1'', fc_name = js ''search_knowledge_base'',
               fc_args = Query (js ''a'')\<rparr>, [])])
      [Disconnect, LookupDone 0]) = []
   \<and> sends (trace toLowerCase_ascii []
      (\<lparr>sessionPromise = Some 7, outputAudioContext = True, outputNode = True,
        nextStartTime = 0, sources = [], created = 0\<rparr>,
       [Some (\<lparr>fc_id = js ''1'', fc_name = js ''search_knowledge_base'',
               fc_args = Query (js ''a'')\<rparr>, [])])
      [LookupDone 0]) = [(7, js ''1'', js ''search_knowledge_base'', RAG_NOT_FOUND)]"
  using C3_dead_session_drop [where lc = toLowerCase_ascii and db = "[]"
      and st = "\<lparr>sessionPromise = Some 7, outputAudioContext = True, outputNode = True,
        nextStartTime = 0, sources = [], created = 0\<rparr>"
      and hs = "[Some (\<lparr>fc_id = js ''1'', fc_name = js ''search_knowledge_base'',
               fc_args = Query (js ''a'')\<rparr>, [])]"
      and evs = "[LookupDone 0]"]
  by (simp add: trace_def resume_def Let_def searchKnowledgeBase_def toLowerCase_ascii_def js_def)

subsection \<open>Transcript callbacks of the service\<close>

lemma transcript_calls_stops: "transcript_calls (map SourceStop xs) = []"
  by (induction xs) simp_all

lemma transcript_calls_tool_loop: "transcript_calls (fst (tool_loop fcs)) = []"
  by (induction fcs) (simp_all split: fc_args.splits)

lemma transcript_calls_resume: "transcript_calls (fst (resume lc db st p)) = []"
  by (simp add: resume_def Let_def transcript_calls_append transcript_calls_tool_loop
      split: option.splits sum.splits)

lemma transcript_calls_disconnect: "transcript_calls (snd (disconnect st)) = []"
  by (simp add: disconnect_def transcript_calls_append split: option.splits)

lemma transcript_calls_handleMessage:
  "transcript_calls (snd (fst (handleMessage st now m))) = transcript_calls (transcripts m)"
  by (simp add: handleMessage_def Let_def enqueue_def interrupt_def transcript_calls_append
      transcript_calls_stops transcript_calls_tool_loop split: option.splits)

lemma transcripts_good:
  "(t, f, s) \<in> set (transcript_calls (transcripts m)) \<Longrightarrow> t \<noteq> [] \<and> \<not> f"
  by (auto simp: transcripts_def split: option.splits if_splits)

lemma transcript_calls_step:
  "(t, f, s) \<in> set (transcript_calls (snd (step lc db c ev))) \<Longrightarrow> t \<noteq> [] \<and> \<not> f"
proof (cases c)
  case (Pair st hs)
  assume a: "(t, f, s) \<in> set (transcript_calls (snd (step lc db c ev)))"
  show ?thesis
  proof (cases ev)
    case (Message now m)
    with Pair a have "(t, f, s) \<in> set (transcript_calls (transcripts m))"
      by (simp add: Let_def transcript_calls_handleMessage)
    then show ?thesis by (rule transcripts_good)
  next
    case (LookupDone i)
    with Pair a show ?thesis
      by (simp add: Let_def transcript_calls_resume split: if_splits option.splits)
  next
    case (Ended src)
    with Pair a show ?thesis by simp
  next
    case Disconnect
    with Pair a show ?thesis by (simp add: transcript_calls_disconnect)
  qed
qed

text \<open>
  Claim C10. In every run of the service, from any configuration, each call of
  \<open>onTranscript\<close> passes a text that is not empty and \<open>isFinal = false\<close>.
\<close>

theorem C10_transcript_callbacks:
  "\<forall>(t, f, s) \<in> set (transcript_calls (trace lc db c evs)). t \<noteq> [] \<and> f = False"
proof (induction evs arbitrary: c)
  case Nil
  show ?case by (simp add: trace_Nil)
next
  case (Cons ev evs)
  show ?case
    using Cons.IH [of "fst (step lc db c ev)"] transcript_calls_step [of _ _ _ lc db c ev]
    by (auto simp: trace_Cons transcript_calls_append)
qed

theorem C10_transcript_callbacks_witness:
  "transcript_calls (trace toLowerCase_ascii []
      (\<lparr>sessionPromise = Some 7, outputAudioContext = True, outputNode = True,
        nextStartTime = 0, sources = [], created = 0\<rparr>, [])
      [Message 0 \<lparr>audio = None, interrupted = False, inputTranscription = Some (js ''hi''),
                  outputTranscription = Some [], toolCall = None\<rparr>,
       Message 1 \<lparr>audio = None, interrupted = False, inputTranscription = Some [],
                  outputTranscription = Some (js ''yo''), toolCall = None\<rparr>])
     = [(js ''hi'', False, User), (js ''yo'', False, Agent)]"
  using C10_transcript_callbacks [where lc = toLowerCase_ascii and db = "[]"
      and c = "(\<lparr>sessionPromise = Some 7, outputAudioContext = True, outputNode = True,
        nextStartTime = 0, sources = [], created = 0\<rparr>, [])"
      and evs = "[Message 0 \<lparr>audio = None, interrupted = False, inputTranscription = Some (js ''hi''),
                  outputTranscription = Some [], toolCall = None\<rparr>,
       Message 1 \<lparr>audio = None, interrupted = False, inputTranscription = Some [],
                  outputTranscription = Some (js ''yo''), toolCall = None\<rparr>]"]
  by (simp add: trace_def handleMessage_def transcripts_def Let_def js_def)

subsection \<open>Unrecognized tool names\<close>

lemma same_recognized_refl: "same_recognized p p"
  by (simp add: same_recognized_def)

lemma slot_rel_refl: "rel_option same_recognized x x"
  by (cases x) (simp_all add: same_recognized_refl)

lemma slot_rel_join:
  "rel_option same_recognized x z \<Longrightarrow> rel_option same_recognized y z
     \<Longrightarrow> rel_option same_recognized x y"
  by (cases x; cases y; cases z) (simp_all add: same_recognized_def)

lemma recognized_idem: "recognized (recognized fcs) = recognized fcs"
  by (simp add: recognized_def)

lemma tool_loop_none: "recognized fcs = [] \<Longrightarrow> tool_loop fcs = ([], Finished)"
  by (induction fcs) (simp_all add: recognized_def split: if_splits)

lemma tool_loop_filter:
  "fst (tool_loop fcs) = fst (tool_loop (recognized fcs))
   \<and> rel_option same_recognized (slot (snd (tool_loop fcs)))
        (slot (snd (tool_loop (recognized fcs))))"
proof (induction fcs)
  case Nil
  show ?case by (simp add: recognized_def)
next
  case (Cons fc rest)
  show ?case
  proof (cases "fc_name fc = js ''search_knowledge_base''")
    case True
    then have r: "recognized (fc # rest) = fc # recognized rest"
      by (simp add: recognized_def)
    show ?thesis
      unfolding r using True
      by (simp add: same_recognized_def recognized_idem split: fc_args.splits)
  next
    case False
    then have r: "recognized (fc # rest) = recognized rest"
      by (simp add: recognized_def)
    show ?thesis
      unfolding r using False Cons.IH by simp
  qed
qed

lemma tool_loop_recognized:
  assumes "recognized a = recognized b"
  shows "fst (tool_loop a) = fst (tool_loop b)
       \<and> rel_option same_recognized (slot (snd (tool_loop a))) (slot (snd (tool_loop b)))"
proof -
  from tool_loop_filter [of a] tool_loop_filter [of b] assms
  have "fst (tool_loop a) = fst (tool_loop b)"
    and "rel_option same_recognized (slot (snd (tool_loop a)))
           (slot (snd (tool_loop (recognized a))))"
    and "rel_option same_recognized (slot (snd (tool_loop b)))
           (slot (snd (tool_loop (recognized a))))"
    by simp_all
  then show ?thesis by (blast intro: slot_rel_join)
qed

lemma resume_recognized:
  assumes "same_recognized p q"
  shows "fst (resume lc db st p) = fst (resume lc db st q)
       \<and> rel_option same_recognized (slot (snd (resume lc db st p)))
            (slot (snd (resume lc db st q)))"
proof -
  from assms have f: "fst p = fst q" and r: "recognized (snd p) = recognized (snd q)"
    by (simp_all add: same_recognized_def)
  from tool_loop_recognized [OF r] show ?thesis
    by (simp add: resume_def Let_def f split: sum.splits)
qed

lemma step_recognized:
  assumes "list_all2 (rel_option same_recognized) hs hs'"
  shows "snd (step lc db (st, hs) ev) = snd (step lc db (st, hs') ev)
       \<and> fst (fst (step lc db (st, hs) ev)) = fst (fst (step lc db (st, hs') ev))
       \<and> list_all2 (rel_option same_recognized)
            (snd (fst (step lc db (st, hs) ev))) (snd (fst (step lc db (st, hs') ev)))"
proof (cases ev)
  case (Message now m)
  have "list_all2 (rel_option same_recognized)
          [slot (snd (handleMessage st now m))] [slot (snd (handleMessage st now m))]"
    by (simp add: slot_rel_refl)
  with assms Message show ?thesis
    by (simp add: Let_def list_all2_appendI)
next
  case (LookupDone i)
  from assms have len: "length hs = length hs'" by (rule list_all2_lengthD)
  show ?thesis
  proof (cases "i < length hs")
    case False
    with LookupDone len assms show ?thesis by simp
  next
    case True
    with assms have "rel_option same_recognized (hs ! i) (hs' ! i)"
      by (simp add: list_all2_nthD)
    then show ?thesis
    proof (cases rule: option.rel_cases)
      case None
      with LookupDone True len assms show ?thesis by simp
    next
      case (Some p q)
      from resume_recognized [OF Some(3), of lc db st]
      have e: "fst (resume lc db st p) = fst (resume lc db st q)"
        and s: "rel_option same_recognized (slot (snd (resume lc db st p)))
                  (slot (snd (resume lc db st q)))"
        by simp_all
      from assms s have "list_all2 (rel_option same_recognized)
          (hs[i := slot (snd (resume lc db st p))]) (hs'[i := slot (snd (resume lc db st q))])"
        by (simp add: list_all2_update_cong)
      with LookupDone True len e Some(1,2) show ?thesis by (simp add: Let_def)
    qed
  qed
next
  case (Ended src)
  with assms show ?thesis by simp
next
  case Disconnect
  with assms show ?thesis by simp
qed

lemma trace_recognized:
  "list_all2 (rel_option same_recognized) hs hs'
     \<Longrightarrow> trace lc db (st, hs) evs = trace lc db (st, hs') evs"
proof (induction evs arbitrary: st hs hs')
  case Nil
  show ?case by (simp add: trace_Nil)
next
  case (Cons ev evs)
  from step_recognized [OF Cons.prems, of lc db st ev]
  have e: "snd (step lc db (st, hs) ev) = snd (step lc db (st, hs') ev)"
    and s: "fst (fst (step lc db (st, hs) ev)) = fst (fst (step lc db (st, hs') ev))"
    and r: "list_all2 (rel_option same_recognized)
              (snd (fst (step lc db (st, hs) ev))) (snd (fst (step lc db (st, hs') ev)))"
    by simp_all
  have "trace lc db (fst (fst (step lc db (st, hs) ev)), snd (fst (step lc db (st, hs) ev))) evs
      = trace lc db (fst (fst (step lc db (st, hs) ev)), snd (fst (step lc db (st, hs') ev))) evs"
    by (rule Cons.IH [OF r])
  with s have "trace lc db (fst (step lc db (st, hs) ev)) evs
      = trace lc db (fst (step lc db (st, hs') ev)) evs"
    by (metis prod.collapse)
  with e show ?case by (simp only: trace_Cons)
qed

text \<open>
  Claim C5. A function call whose name is not \<open>search_knowledge_base\<close> is passed over
  by the loop with no effect: no lookup is called and nothing is sent for it. Handling
  an inbound event with the calls \<open>fcs\<close> produces, whatever happens afterwards, the same
  trace as handling the event with only the recognized calls of \<open>fcs\<close>; and an event
  none of whose calls is recognized is handled exactly as one with an empty call list.
\<close>

theorem C5_unrecognized_ignored:
  "trace lc db (st, hs) (Message now (m\<lparr>toolCall := Some fcs\<rparr>) # evs)
     = trace lc db (st, hs) (Message now (m\<lparr>toolCall := Some (recognized fcs)\<rparr>) # evs)
   \<and> (fc_name fc \<noteq> js ''search_knowledge_base'' \<longrightarrow> tool_loop (fc # rest) = tool_loop rest)
   \<and> (recognized fcs = [] \<longrightarrow>
        step lc db (st, hs) (Message now (m\<lparr>toolCall := Some fcs\<rparr>))
          = step lc db (st, hs) (Message now (m\<lparr>toolCall := Some []\<rparr>)))"
proof -
  let ?m1 = "m\<lparr>toolCall := Some fcs\<rparr>" and ?m2 = "m\<lparr>toolCall := Some (recognized fcs)\<rparr>"
  from tool_loop_filter [of fcs]
  have tl: "fst (tool_loop fcs) = fst (tool_loop (recognized fcs))"
    and tp: "rel_option same_recognized (slot (snd (tool_loop fcs)))
               (slot (snd (tool_loop (recognized fcs))))"
    by simp_all
  have tr: "transcripts ?m1 = transcripts ?m2" by (simp add: transcripts_def)
  have h: "fst (handleMessage st now ?m1) = fst (handleMessage st now ?m2)"
    by (simp add: handleMessage_def Let_def tl tr)
  have p: "rel_option same_recognized (slot (snd (handleMessage st now ?m1)))
             (slot (snd (handleMessage st now ?m2)))"
    using tp by (simp add: handleMessage_def Let_def)
  have l: "list_all2 (rel_option same_recognized)
      (hs @ [slot (snd (handleMessage st now ?m1))])
      (hs @ [slot (snd (handleMessage st now ?m2))])"
    using p by (simp add: list_all2_appendI list_all2_refl slot_rel_refl)
  have s1: "step lc db (st, hs) (Message now ?m1)
      = ((fst (fst (handleMessage st now ?m2)), hs @ [slot (snd (handleMessage st now ?m1))]),
         snd (fst (handleMessage st now ?m2)))"
    by (simp add: Let_def h)
  have s2: "step lc db (st, hs) (Message now ?m2)
      = ((fst (fst (handleMessage st now ?m2)), hs @ [slot (snd (handleMessage st now ?m2))]),
         snd (fst (handleMessage st now ?m2)))"
    by (simp add: Let_def)
  have "trace lc db (st, hs) (Message now ?m1 # evs) = trace lc db (st, hs) (Message now ?m2 # evs)"
    by (simp only: trace_Cons s1 s2 fst_conv snd_conv trace_recognized [OF l])
  moreover have "step lc db (st, hs) (Message now ?m1)
          = step lc db (st, hs) (Message now (m\<lparr>toolCall := Some []\<rparr>))" if "recognized fcs = []"
    by (simp add: Let_def handleMessage_def transcripts_def tool_loop_none [OF that])
  ultimately show ?thesis by simp
qed

theorem C5_unrecognized_ignored_witness:
  "fc_name \<lparr>fc_id = js ''x'', fc_name = js ''other_tool'', fc_args = Query (js ''b'')\<rparr>
     \<noteq> js ''search_knowledge_base''
   \<and> tool_loop [\<lparr>fc_id = js ''x'', fc_name = js ''other_tool'', fc_args = Query (js ''b'')\<rparr>]
       = ([], Finished)
   \<and> recognized [\<lparr>fc_id = js ''x'', fc_name = js ''other_tool'', fc_args = Query (js ''b'')\<rparr>] = []
   \<and> step toLowerCase_ascii []
        (\<lparr>sessionPromise = Some 7, outputAudioContext = True, outputNode = True,
          nextStartTime = 0, sources = [], created = 0\<rparr>, [])
        (Message 0 \<lparr>audio = None, interrupted = False, inputTranscription = None,
           outputTranscription = None,
           toolCall = Some [\<lparr>fc_id = js ''x'', fc_name = js ''other_tool'',
                             fc_args = Query (js ''b'')\<rparr>]\<rparr>)
      = ((\<lparr>sessionPromise = Some 7, outputAudioContext = True, outputNode = True,
           nextStartTime = 0, sources = [], created = 0\<rparr>, [None]),
         [OnLog LogSystem (js ''Model requesting tool use...'')])"
  using C5_unrecognized_ignored [where lc = toLowerCase_ascii and db = "[]"
        and st = "\<lparr>sessionPromise = Some 7, outputAudioContext = True, outputNode = True,
          nextStartTime = 0, sources = [], created = 0\<rparr>"
        and hs = "[]" and now = 0
        and m = "\<lparr>audio = None, interrupted = False, inputTranscription = None,
           outputTranscription = None, toolCall = None\<rparr>"
        and fcs = "[\<lparr>fc_id = js ''x'', fc_name = js ''other_tool'', fc_args = Query (js ''b'')\<rparr>]"
        and evs = "[]"
        and fc = "\<lparr>fc_id = js ''x'', fc_name = js ''other_tool'', fc_args = Query (js ''b'')\<rparr>"
        and rest = "[]"]
  by (simp add: recognized_def handleMessage_def transcripts_def Let_def js_def)

subsection \<open>Playback scheduler\<close>

lemma starts_stops: "starts (map SourceStop xs) = []"
  by (induction xs) simp_all

lemma starts_tool_loop: "starts (fst (tool_loop fcs)) = []"
  by (induction fcs) (simp_all split: fc_args.splits)

lemma starts_resume: "starts (fst (resume lc db st p)) = []"
  by (simp add: resume_def Let_def starts_append starts_tool_loop split: option.splits sum.splits)

lemma starts_disconnect: "starts (snd (disconnect st)) = []"
  by (simp add: disconnect_def starts_append split: option.splits)

lemma starts_transcripts: "starts (transcripts m) = []"
  by (simp add: transcripts_def split: option.splits)

lemma starts_interrupt: "starts (snd (interrupt st)) = []"
  by (simp add: interrupt_def starts_stops)

lemma starts_enqueue:
  "starts (snd (enqueue st now b)) = [(max (nextStartTime st) now, duration b)]"
  by (simp add: enqueue_def Let_def)

lemma nextStartTime_enqueue:
  "nextStartTime (fst (enqueue st now b)) = max (nextStartTime st) now + duration b"
  by (simp add: enqueue_def Let_def)

lemma starts_handleMessage:
  "starts (snd (fst (handleMessage st now m)))
     = (case audio m of
          Some b \<Rightarrow> if outputAudioContext st \<and> outputNode st
                    then [(max (nextStartTime st) now, duration b)] else []
        | None \<Rightarrow> [])"
  by (simp add: handleMessage_def Let_def starts_append starts_enqueue starts_interrupt
      starts_transcripts starts_tool_loop split: option.splits)

lemma nextStartTime_handleMessage:
  "\<not> interrupted m \<Longrightarrow>
   nextStartTime (fst (fst (handleMessage st now m)))
     = (case audio m of
          Some b \<Rightarrow> if outputAudioContext st \<and> outputNode st
                    then max (nextStartTime st) now + duration b else nextStartTime st
        | None \<Rightarrow> nextStartTime st)"
  by (auto simp: handleMessage_def Let_def nextStartTime_enqueue split: option.splits)

lemma nextStartTime_disconnect: "nextStartTime (fst (disconnect st)) = nextStartTime st"
  by (simp add: disconnect_def)

lemma step_chained:
  assumes q: "no_interrupt ev"
    and c: "chained (nextStartTime (fst (fst (step lc db c ev)))) ss"
  shows "chained (nextStartTime (fst c)) (starts (snd (step lc db c ev)) @ ss)"
proof (cases c)
  case (Pair st hs)
  show ?thesis
  proof (cases ev)
    case (Message now m)
    with q have ni: "\<not> interrupted m" by simp
    from c Pair Message
    have c': "chained (nextStartTime (fst (fst (handleMessage st now m)))) ss"
      by (simp add: Let_def)
    have "chained (nextStartTime st) (starts (snd (fst (handleMessage st now m))) @ ss)"
      using c' unfolding nextStartTime_handleMessage [OF ni] starts_handleMessage
      by (auto split: option.splits if_splits)
    with Pair Message show ?thesis by (simp add: Let_def)
  next
    case (LookupDone i)
    with Pair c show ?thesis
      by (simp add: Let_def starts_resume split: if_splits option.splits)
  next
    case (Ended src)
    with Pair c show ?thesis by (simp add: ended_def)
  next
    case Disconnect
    with Pair c show ?thesis by (simp add: starts_disconnect nextStartTime_disconnect)
  qed
qed

lemma run_chained:
  "\<forall>ev \<in> set evs. no_interrupt ev \<Longrightarrow> chained (nextStartTime (fst c)) (starts (trace lc db c evs))"
proof (induction evs arbitrary: c)
  case Nil
  show ?case by (simp add: trace_Nil)
next
  case (Cons ev evs)
  from Cons.prems have q: "no_interrupt ev" and r: "\<forall>ev \<in> set evs. no_interrupt ev" by simp_all
  from step_chained [OF q Cons.IH [OF r]] show ?case
    by (simp add: trace_Cons starts_append)
qed

lemma step_durations:
  assumes "valid_audio ev" and "(t, d) \<in> set (starts (snd (step lc db c ev)))"
  shows "0 \<le> d"
proof (cases c)
  case (Pair st hs)
  show ?thesis
  proof (cases ev)
    case (Message now m)
    with Pair assms show ?thesis
      by (auto simp: Let_def starts_handleMessage split: option.splits if_splits)
  next
    case (LookupDone i)
    with Pair assms show ?thesis by (simp add: Let_def starts_resume split: if_splits option.splits)
  next
    case (Ended src)
    with Pair assms show ?thesis by simp
  next
    case Disconnect
    with Pair assms show ?thesis by (simp add: starts_disconnect)
  qed
qed

lemma run_durations:
  "\<forall>ev \<in> set evs. valid_audio ev \<Longrightarrow> (t, d) \<in> set (starts (trace lc db c evs)) \<Longrightarrow> 0 \<le> d"
proof (induction evs arbitrary: c)
  case Nil
  then show ?case by (simp add: trace_Nil)
next
  case (Cons ev evs)
  from Cons.prems(2) have "(t, d) \<in> set (starts (snd (step lc db c ev)))
      \<or> (t, d) \<in> set (starts (trace lc db (fst (step lc db c ev)) evs))"
    by (simp add: trace_Cons starts_append)
  then show ?case
  proof
    assume "(t, d) \<in> set (starts (snd (step lc db c ev)))"
    with Cons.prems(1) show ?thesis by (auto intro: step_durations)
  next
    assume "(t, d) \<in> set (starts (trace lc db (fst (step lc db c ev)) evs))"
    with Cons.prems(1) Cons.IH show ?thesis by simp
  qed
qed

lemma chained_lower:
  "chained n ss \<Longrightarrow> \<forall>(t, d) \<in> set ss. 0 \<le> d \<Longrightarrow> (t, d) \<in> set ss \<Longrightarrow> n \<le> t"
proof (induction ss arbitrary: n)
  case Nil
  then show ?case by simp
next
  case (Cons a ss)
  obtain t0 d0 where a: "a = (t0, d0)" by (cases a)
  from Cons.prems a have n: "n \<le> t0" and c: "chained (t0 + d0) ss" and d0: "0 \<le> d0"
    and ds: "\<forall>(t, d) \<in> set ss. 0 \<le> d" by simp_all
  from Cons.prems(3) a have "(t, d) = (t0, d0) \<or> (t, d) \<in> set ss" by simp
  then show ?case
  proof
    assume "(t, d) = (t0, d0)"
    with n show ?thesis by simp
  next
    assume "(t, d) \<in> set ss"
    from Cons.IH [OF c ds this] n d0 show ?thesis by simp
  qed
qed

lemma chained_pairwise:
  "chained n ss \<Longrightarrow> \<forall>(t, d) \<in> set ss. 0 \<le> d \<Longrightarrow> i < j \<Longrightarrow> j < length ss \<Longrightarrow>
   fst (ss ! i) + snd (ss ! i) \<le> fst (ss ! j)"
proof (induction ss arbitrary: n i j)
  case Nil
  then show ?case by simp
next
  case (Cons a ss)
  obtain t0 d0 where a: "a = (t0, d0)" by (cases a)
  from Cons.prems a have c: "chained (t0 + d0) ss"
    and ds: "\<forall>(t, d) \<in> set ss. 0 \<le> d" by simp_all
  from Cons.prems(3) obtain j' where j: "j = Suc j'" by (cases j) simp_all
  with Cons.prems(4) have j'len: "j' < length ss" by simp
  show ?case
  proof (cases i)
    case 0
    from j'len have "(fst (ss ! j'), snd (ss ! j')) \<in> set ss" by simp
    from chained_lower [OF c ds this] show ?thesis by (simp add: 0 j a)
  next
    case (Suc i')
    with Cons.prems(3) j have "i' < j'" by simp
    from Cons.IH [OF c ds this j'len] show ?thesis by (simp add: Suc j)
  qed
qed

text \<open>
  Claim C1. An enqueue starts its buffer at the later of \<open>nextStartTime\<close> and the clock
  reading, and leaves \<open>nextStartTime\<close> at that start plus the buffer's duration. In
  every run in which no message carries \<open>interrupted\<close> (messages, lookup completions,
  ended sources and \<open>disconnect\<close> in any order), a buffer started later starts at or
  after the end of every buffer started before it.
\<close>

theorem C1_no_overlap:
  assumes "\<forall>ev \<in> set evs. no_interrupt ev \<and> valid_audio ev"
  shows "starts (snd (enqueue st now b)) = [(max (nextStartTime st) now, duration b)]
       \<and> nextStartTime (fst (enqueue st now b)) = max (nextStartTime st) now + duration b
       \<and> (\<forall>i j. i < j \<and> j < length (starts (trace lc db c evs)) \<longrightarrow>
             fst (starts (trace lc db c evs) ! i) + snd (starts (trace lc db c evs) ! i)
               \<le> fst (starts (trace lc db c evs) ! j))"
proof -
  from assms have q: "\<forall>ev \<in> set evs. no_interrupt ev" and v: "\<forall>ev \<in> set evs. valid_audio ev"
    by simp_all
  have ch: "chained (nextStartTime (fst c)) (starts (trace lc db c evs))"
    using q by (rule run_chained)
  have ds: "\<forall>(t, d) \<in> set (starts (trace lc db c evs)). 0 \<le> d"
  proof (intro ballI)
    fix x assume x: "x \<in> set (starts (trace lc db c evs))"
    obtain t d where xd: "x = (t, d)" by (cases x)
    from x xd have "0 \<le> d" by (simp add: run_durations [OF v])
    with xd show "case x of (t, d) \<Rightarrow> 0 \<le> d" by simp
  qed
  have "fst (starts (trace lc db c evs) ! i) + snd (starts (trace lc db c evs) ! i)
               \<le> fst (starts (trace lc db c evs) ! j)"
    if "i < j" "j < length (starts (trace lc db c evs))" for i j
    using ch ds that by (rule chained_pairwise)
  then show ?thesis
    by (simp add: starts_enqueue nextStartTime_enqueue)
qed

theorem C1_no_overlap_witness:
  "no_interrupt (Message 0 \<lparr>audio = Some \<lparr>duration = 2\<rparr>, interrupted = False,
        inputTranscription = None, outputTranscription = None, toolCall = None\<rparr>)
   \<and> valid_audio (Message 0 \<lparr>audio = Some \<lparr>duration = 2\<rparr>, interrupted = False,
        inputTranscription = None, outputTranscription = None, toolCall = None\<rparr>)
   \<and> no_interrupt (Message 1 \<lparr>audio = Some \<lparr>duration = 3\<rparr>, interrupted = False,
        inputTranscription = None, outputTranscription = None, toolCall = None\<rparr>)
   \<and> valid_audio (Message 1 \<lparr>audio = Some \<lparr>duration = 3\<rparr>, interrupted = False,
        inputTranscription = None, outputTranscription = None, toolCall = None\<rparr>)
   \<and> no_interrupt (Ended 0) \<and> valid_audio (Ended 0)
   \<and> no_interrupt (Message 10 \<lparr>audio = Some \<lparr>duration = 1\<rparr>, interrupted = False,
        inputTranscription = None, outputTranscription = None, toolCall = None\<rparr>)
   \<and> valid_audio (Message 10 \<lparr>audio = Some \<lparr>duration = 1\<rparr>, interrupted = False,
        inputTranscription = None, outputTranscription = None, toolCall = None\<rparr>)
   \<and> starts (trace toLowerCase_ascii []
        (\<lparr>sessionPromise = Some 7, outputAudioContext = True, outputNode = True,
          nextStartTime = 0, sources = [], created = 0\<rparr>, [])
        [Message 0 \<lparr>audio = Some \<lparr>duration = 2\<rparr>, interrupted = False,
            inputTranscription = None, outputTranscription = None, toolCall = None\<rparr>,
         Message 1 \<lparr>audio = Some \<lparr>duration = 3\<rparr>, interrupted = False,
            inputTranscription = None, outputTranscription = None, toolCall = None\<rparr>,
         Ended 0,
         Message 10 \<lparr>audio = Some \<lparr>duration = 1\<rparr>, interrupted = False,
            inputTranscription = None, outputTranscription = None, toolCall = None\<rparr>])
      = [(0, 2), (2, 3), (10, 1)]
   \<and> fst ([(0, 2), (2, 3), (10, 1 :: real)] ! 0) + snd ([(0, 2), (2, 3), (10, 1)] ! 0)
        \<le> (fst ([(0, 2), (2, 3), (10, 1)] ! 2) :: real)"
  using C1_no_overlap [where lc = toLowerCase_ascii and db = "[]"
        and evs = "[Message 0 \<lparr>audio = Some \<lparr>duration = 2\<rparr>, interrupted = False,
            inputTranscription = None, outputTranscription = None, toolCall = None\<rparr>,
         Message 1 \<lparr>audio = Some \<lparr>duration = 3\<rparr>, interrupted = False,
            inputTranscription = None, outputTranscription = None, toolCall = None\<rparr>,
         Ended 0,
         Message 10 \<lparr>audio = Some \<lparr>duration = 1\<rparr>, interrupted = False,
            inputTranscription = None, outputTranscription = None, toolCall = None\<rparr>]"
        and st = "\<lparr>sessionPromise = Some 7, outputAudioContext = True, outputNode = True,
          nextStartTime = 0, sources = [], created = 0\<rparr>"
        and now = 0 and b = "\<lparr>duration = 2\<rparr>"
        and c = "(\<lparr>sessionPromise = Some 7, outputAudioContext = True, outputNode = True,
          nextStartTime = 0, sources = [], created = 0\<rparr>, [])"]
  by (simp add: trace_def handleMessage_def enqueue_def transcripts_def ended_def Let_def
      set_add_def set_delete_def)

text \<open>
  Claim C2. The interruption stops every source of the live set, in the order of the
  set, empties the set and puts \<open>nextStartTime\<close> to 0; a message that carries
  \<open>interrupted\<close> leaves the service in that state, also when it carries audio. The next
  message with audio then starts its buffer at \<open>max 0 now'\<close>, where \<open>now'\<close> is the clock
  reading of that message: at or after the clock reading, whatever \<open>nextStartTime\<close> was
  before the interruption.
\<close>

theorem C2_interrupt_resets:
  "stops (snd (interrupt st)) = sources st
   \<and> sources (fst (interrupt st)) = []
   \<and> nextStartTime (fst (interrupt st)) = 0
   \<and> (interrupted m \<longrightarrow>
        sources (fst (fst (handleMessage st now m))) = []
        \<and> nextStartTime (fst (fst (handleMessage st now m))) = 0)
   \<and> (interrupted m \<and> audio m' = Some b \<and> outputAudioContext st \<and> outputNode st \<longrightarrow>
        starts (snd (fst (handleMessage (fst (fst (handleMessage st now m))) now' m')))
          = [(max 0 now', duration b)]
        \<and> now' \<le> max 0 now')"
proof -
  have stops_map: "stops (map SourceStop xs) = xs" for xs
    by (induction xs) simp_all
  have a: "stops (snd (interrupt st)) = sources st"
    by (simp add: interrupt_def stops_map)
  have b: "sources (fst (interrupt st')) = [] \<and> nextStartTime (fst (interrupt st')) = 0" for st'
    by (simp add: interrupt_def)
  have c: "fst (fst (handleMessage st now m))
      = fst (interrupt (fst (case audio m of
                 Some audioBuffer \<Rightarrow>
                   if outputAudioContext st \<and> outputNode st then enqueue st now audioBuffer
                   else (st, [])
               | None \<Rightarrow> (st, []))))" if "interrupted m"
    using that by (simp add: handleMessage_def Let_def)
  have flags: "outputAudioContext (fst (fst (handleMessage st now m))) = outputAudioContext st
      \<and> outputNode (fst (fst (handleMessage st now m))) = outputNode st"
    by (auto simp: handleMessage_def Let_def enqueue_def interrupt_def split: option.splits)
  have d: "starts (snd (fst (handleMessage (fst (fst (handleMessage st now m))) now' m')))
          = [(max 0 now', duration b)]"
    if "interrupted m" "audio m' = Some b" "outputAudioContext st" "outputNode st"
    using that flags b c [OF that(1)] by (simp add: starts_handleMessage)
  from a b [of st] b c d show ?thesis by simp
qed

theorem C2_interrupt_resets_witness:
  "stops (snd (interrupt \<lparr>sessionPromise = Some 7, outputAudioContext = True, outputNode = True,
          nextStartTime = 42, sources = [3, 4], created = 5\<rparr>)) = [3, 4]
   \<and> interrupted \<lparr>audio = None, interrupted = True,
            inputTranscription = None, outputTranscription = None, toolCall = None\<rparr>
   \<and> starts (trace toLowerCase_ascii []
        (\<lparr>sessionPromise = Some 7, outputAudioContext = True, outputNode = True,
          nextStartTime = 42, sources = [3, 4], created = 5\<rparr>, [])
        [Message 10 \<lparr>audio = None, interrupted = True,
            inputTranscription = None, outputTranscription = None, toolCall = None\<rparr>,
         Message 11 \<lparr>audio = Some \<lparr>duration = 1\<rparr>, interrupted = False,
            inputTranscription = None, outputTranscription = None, toolCall = None\<rparr>])
      = [(11, 1)]"
  using C2_interrupt_resets [where
        st = "\<lparr>sessionPromise = Some 7, outputAudioContext = True, outputNode = True,
          nextStartTime = 42, sources = [3, 4], created = 5\<rparr>"
        and m = "\<lparr>audio = None, interrupted = True,
            inputTranscription = None, outputTranscription = None, toolCall = None\<rparr>"
        and now = 10
        and m' = "\<lparr>audio = Some \<lparr>duration = 1\<rparr>, interrupted = False,
            inputTranscription = None, outputTranscription = None, toolCall = None\<rparr>"
        and b = "\<lparr>duration = 1\<rparr>" and now' = 11]
  by (simp add: trace_def Let_def starts_append starts_handleMessage)

subsection \<open>One inbound event among others\<close>

lemma settled_append: "settled (a @ b) = settled a + settled b"
  by (induction a rule: settled.induct) simp_all

lemma lookups_stops: "lookups (map SourceStop xs) = []"
  by (induction xs) simp_all

lemma lookups_front:
  "lookups (snd (enqueue st now b)) = []"
  "lookups (snd (interrupt st)) = []"
  "lookups (transcripts m) = []"
  by (simp_all add: enqueue_def interrupt_def transcripts_def Let_def lookups_stops
      split: option.splits)

lemma lookups_handleMessage:
  "lookups (snd (fst (handleMessage st now m)))
     = (case toolCall m of Some fcs \<Rightarrow> lookups (fst (tool_loop fcs)) | None \<Rightarrow> [])"
  by (simp add: handleMessage_def Let_def lookups_append lookups_front split: option.splits)

lemma outcome_handleMessage:
  "snd (handleMessage st now m)
     = (case toolCall m of Some fcs \<Rightarrow> snd (tool_loop fcs) | None \<Rightarrow> Finished)"
  by (simp add: handleMessage_def Let_def split: option.splits)

lemma tool_loop_script:
  "lookups (fst (tool_loop fcs))
     @ (case snd (tool_loop fcs) of Suspended p \<Rightarrow> tail_script lc db p | _ \<Rightarrow> [])
   = script lc db (recognized fcs)"
  by (induction fcs) (simp_all add: recognized_def tail_script_def split: fc_args.splits sum.splits)

lemma tool_loop_responses:
  "(case snd (tool_loop fcs) of Suspended p \<Rightarrow> tail_responses lc db h p | _ \<Rightarrow> [])
   = responses lc db h (recognized fcs)"
  by (induction fcs) (simp_all add: recognized_def tail_responses_def split: fc_args.splits sum.splits)

lemma settled_tool_loop: "settled (lookups (fst (tool_loop fcs))) = 0"
  by (induction fcs) (simp_all split: fc_args.splits)

lemma resume_script:
  "lookups (fst (resume lc db st p))
     @ (case snd (resume lc db st p) of Suspended p' \<Rightarrow> tail_script lc db p' | _ \<Rightarrow> [])
   = tail_script lc db p"
proof (cases "searchKnowledgeBase lc db (query_of (fc_args (fst p)))")
  case (Inl e)
  then show ?thesis by (simp add: resume_def Let_def tail_script_def)
next
  case (Inr r)
  have "lookups (case sessionPromise st of
          Some session \<Rightarrow> [SendToolResponse session (fc_id (fst p)) (fc_name (fst p)) r]
        | None \<Rightarrow> []) = []"
    by (simp split: option.splits)
  with Inr tool_loop_script [where fcs = "snd p" and lc = lc and db = db] show ?thesis
    by (simp add: resume_def Let_def tail_script_def lookups_append)
qed

lemma resume_responses:
  assumes "sessionPromise st = Some h"
  shows "sends (fst (resume lc db st p))
     @ (case snd (resume lc db st p) of Suspended p' \<Rightarrow> tail_responses lc db h p' | _ \<Rightarrow> [])
   = tail_responses lc db h p"
proof (cases "searchKnowledgeBase lc db (query_of (fc_args (fst p)))")
  case (Inl e)
  then show ?thesis by (simp add: resume_def Let_def tail_responses_def)
next
  case (Inr r)
  with assms tool_loop_responses [where fcs = "snd p" and lc = lc and db = db and h = h] show ?thesis
    by (simp add: resume_def Let_def tail_responses_def sends_append sends_tool_loop)
qed

lemma settled_resume: "settled (lookups (fst (resume lc db st p))) = 1"
proof (cases "searchKnowledgeBase lc db (query_of (fc_args (fst p)))")
  case (Inl e)
  then show ?thesis by (simp add: resume_def Let_def)
next
  case (Inr r)
  have "lookups (case sessionPromise st of
          Some session \<Rightarrow> [SendToolResponse session (fc_id (fst p)) (fc_name (fst p)) r]
        | None \<Rightarrow> []) = []"
    by (simp split: option.splits)
  with Inr show ?thesis
    by (simp add: resume_def Let_def lookups_append settled_append settled_tool_loop)
qed

lemma step_other_slot:
  assumes "k < length hs" and "ev \<noteq> LookupDone k"
  shows "k < length (snd (fst (step lc db (st, hs) ev)))
       \<and> snd (fst (step lc db (st, hs) ev)) ! k = hs ! k"
proof (cases ev)
  case (Message now m)
  with assms show ?thesis by (simp add: Let_def nth_append)
next
  case (LookupDone i)
  with assms have "i \<noteq> k" by simp
  with LookupDone assms show ?thesis by (simp add: Let_def split: option.splits)
next
  case (Ended src)
  with assms show ?thesis by simp
next
  case Disconnect
  with assms show ?thesis by simp
qed

lemma step_sessionPromise:
  "ev \<noteq> Disconnect \<Longrightarrow> sessionPromise (fst (fst (step lc db (st, hs) ev))) = sessionPromise st"
  by (cases ev)
     (simp_all add: Let_def sessionPromise_handleMessage ended_def split: option.splits)

lemma step_resume_slot:
  assumes "k < length hs" and "hs ! k = Some p"
  shows "step lc db (st, hs) (LookupDone k)
       = ((st, hs[k := slot (snd (resume lc db st p))]), fst (resume lc db st p))"
  using assms by (simp add: Let_def)

lemma step_finished_slot:
  assumes "k < length hs" and "hs ! k = None"
  shows "step lc db (st, hs) (LookupDone k) = ((st, hs), [])"
  using assms by simp

lemma own_Cons_resume:
  "own lc db c k (LookupDone k # evs)
     = snd (step lc db c (LookupDone k)) @ own lc db (fst (step lc db c (LookupDone k))) k evs"
  by simp

lemma own_Cons_other:
  "ev \<noteq> LookupDone k \<Longrightarrow> own lc db c k (ev # evs) = own lc db (fst (step lc db c ev)) k evs"
  by simp

lemma own_finished:
  "k < length hs \<Longrightarrow> hs ! k = None \<Longrightarrow> own lc db (st, hs) k evs = []"
proof (induction evs arbitrary: st hs)
  case Nil
  show ?case by simp
next
  case (Cons ev evs)
  show ?case
  proof (cases "ev = LookupDone k")
    case True
    from step_finished_slot [OF Cons.prems, of lc db st] Cons.IH [OF Cons.prems] True
    show ?thesis by (simp only: own_Cons_resume fst_conv snd_conv append_Nil)
  next
    case False
    from step_other_slot [OF Cons.prems(1) False, of lc db st] Cons.prems(2)
    have k: "k < length (snd (fst (step lc db (st, hs) ev)))"
      and n: "snd (fst (step lc db (st, hs) ev)) ! k = None" by simp_all
    from Cons.IH [OF k n, of "fst (fst (step lc db (st, hs) ev))"]
    show ?thesis by (simp only: own_Cons_other [OF False] prod.collapse)
  qed
qed

lemma own_dead:
  "sessionPromise st = None \<Longrightarrow> sends (own lc db (st, hs) k evs) = []"
proof (induction evs arbitrary: st hs)
  case Nil
  show ?case by simp
next
  case (Cons ev evs)
  from step_dead [of "(st, hs)" lc db ev] Cons.prems
  have a: "sends (snd (step lc db (st, hs) ev)) = []"
    and b: "sessionPromise (fst (fst (step lc db (st, hs) ev))) = None" by simp_all
  from Cons.IH [OF b, of "snd (fst (step lc db (st, hs) ev))"]
  have c: "sends (own lc db (fst (step lc db (st, hs) ev)) k evs) = []"
    by (simp only: prod.collapse)
  show ?case
  proof (cases "ev = LookupDone k")
    case True
    from a c show ?thesis
      unfolding True by (simp only: own_Cons_resume sends_append append_Nil)
  next
    case False
    from c show ?thesis by (simp only: own_Cons_other [OF False])
  qed
qed

lemma own_prefix_lookups:
  "k < length hs \<Longrightarrow> hs ! k = Some p
     \<Longrightarrow> prefix (lookups (own lc db (st, hs) k evs)) (tail_script lc db p)"
proof (induction evs arbitrary: st hs p)
  case Nil
  show ?case by simp
next
  case (Cons ev evs)
  show ?case
  proof (cases "ev = LookupDone k")
    case True
    let ?r = "resume lc db st p"
    let ?hs = "hs[k := slot (snd ?r)]"
    have s: "step lc db (st, hs) (LookupDone k) = ((st, ?hs), fst ?r)"
      using Cons.prems by (rule step_resume_slot)
    have o: "own lc db (st, hs) k (ev # evs) = fst ?r @ own lc db (st, ?hs) k evs"
      unfolding True by (simp only: own_Cons_resume s fst_conv snd_conv)
    from Cons.prems(1) have k: "k < length ?hs" by simp
    show ?thesis
    proof (cases "snd ?r")
      case (Suspended p')
      with Cons.prems(1) have "?hs ! k = Some p'" by simp
      from Cons.IH [OF k this]
      have "prefix (lookups (own lc db (st, ?hs) k evs)) (tail_script lc db p')" .
      moreover from resume_script [of lc db st p] Suspended
      have "tail_script lc db p = lookups (fst ?r) @ tail_script lc db p'" by simp
      ultimately show ?thesis unfolding o by (simp add: lookups_append)
    next
      case Finished
      with Cons.prems(1) have "?hs ! k = None" by simp
      from own_finished [OF k this] have "own lc db (st, ?hs) k evs = []" .
      moreover from resume_script [of lc db st p] Finished
      have "tail_script lc db p = lookups (fst ?r)" by simp
      ultimately show ?thesis unfolding o by simp
    next
      case Thrown
      with Cons.prems(1) have "?hs ! k = None" by simp
      from own_finished [OF k this] have "own lc db (st, ?hs) k evs = []" .
      moreover from resume_script [of lc db st p] Thrown
      have "tail_script lc db p = lookups (fst ?r)" by simp
      ultimately show ?thesis unfolding o by simp
    qed
  next
    case False
    from step_other_slot [OF Cons.prems(1) False, of lc db st] Cons.prems(2)
    have k: "k < length (snd (fst (step lc db (st, hs) ev)))"
      and n: "snd (fst (step lc db (st, hs) ev)) ! k = Some p" by simp_all
    from Cons.IH [OF k n, of "fst (fst (step lc db (st, hs) ev))"]
    show ?thesis by (simp only: own_Cons_other [OF False] prod.collapse)
  qed
qed

lemma own_prefix_sends:
  "k < length hs \<Longrightarrow> hs ! k = Some p \<Longrightarrow> sessionPromise st = Some h
     \<Longrightarrow> prefix (sends (own lc db (st, hs) k evs)) (tail_responses lc db h p)"
proof (induction evs arbitrary: st hs p)
  case Nil
  show ?case by simp
next
  case (Cons ev evs)
  show ?case
  proof (cases "ev = LookupDone k")
    case True
    let ?r = "resume lc db st p"
    let ?hs = "hs[k := slot (snd ?r)]"
    have s: "step lc db (st, hs) (LookupDone k) = ((st, ?hs), fst ?r)"
      using Cons.prems(1,2) by (rule step_resume_slot)
    have o: "own lc db (st, hs) k (ev # evs) = fst ?r @ own lc db (st, ?hs) k evs"
      unfolding True by (simp only: own_Cons_resume s fst_conv snd_conv)
    from Cons.prems(1) have k: "k < length ?hs" by simp
    show ?thesis
    proof (cases "snd ?r")
      case (Suspended p')
      with Cons.prems(1) have "?hs ! k = Some p'" by simp
      from Cons.IH [OF k this Cons.prems(3)]
      have "prefix (sends (own lc db (st, ?hs) k evs)) (tail_responses lc db h p')" .
      moreover from resume_responses [OF Cons.prems(3), of lc db p] Suspended
      have "tail_responses lc db h p = sends (fst ?r) @ tail_responses lc db h p'" by simp
      ultimately show ?thesis unfolding o by (simp add: sends_append)
    next
      case Finished
      with Cons.prems(1) have "?hs ! k = None" by simp
      from own_finished [OF k this] have "own lc db (st, ?hs) k evs = []" .
      moreover from resume_responses [OF Cons.prems(3), of lc db p] Finished
      have "tail_responses lc db h p = sends (fst ?r)" by simp
      ultimately show ?thesis unfolding o by simp
    next
      case Thrown
      with Cons.prems(1) have "?hs ! k = None" by simp
      from own_finished [OF k this] have "own lc db (st, ?hs) k evs = []" .
      moreover from resume_responses [OF Cons.prems(3), of lc db p] Thrown
      have "tail_responses lc db h p = sends (fst ?r)" by simp
      ultimately show ?thesis unfolding o by simp
    qed
  next
    case False
    from step_other_slot [OF Cons.prems(1) False, of lc db st] Cons.prems(2)
    have k: "k < length (snd (fst (step lc db (st, hs) ev)))"
      and n: "snd (fst (step lc db (st, hs) ev)) ! k = Some p" by simp_all
    have o: "own lc db (st, hs) k (ev # evs)
        = own lc db (fst (fst (step lc db (st, hs) ev)), snd (fst (step lc db (st, hs) ev))) k evs"
      by (simp only: own_Cons_other [OF False] prod.collapse)
    show ?thesis
    proof (cases "ev = Disconnect")
      case True
      then have "sessionPromise (fst (fst (step lc db (st, hs) ev))) = None"
        by (simp add: sessionPromise_disconnect)
      from own_dead [OF this] show ?thesis by (simp only: o) simp
    next
      case False
      from step_sessionPromise [OF False, of lc db st hs] Cons.prems(3)
      have "sessionPromise (fst (fst (step lc db (st, hs) ev))) = Some h" by simp
      from Cons.IH [OF k n this] show ?thesis by (simp only: o)
    qed
  qed
qed

lemma settled_tail_script: "0 < settled (tail_script lc db p)"
  by (simp add: tail_script_def split: sum.splits)

lemma own_complete:
  "k < length hs \<Longrightarrow> hs ! k = Some p \<Longrightarrow> Disconnect \<notin> set evs
     \<Longrightarrow> settled (tail_script lc db p) \<le> length (filter (\<lambda>ev. ev = LookupDone k) evs)
     \<Longrightarrow> lookups (own lc db (st, hs) k evs) = tail_script lc db p
       \<and> (sessionPromise st = Some h \<longrightarrow>
            sends (own lc db (st, hs) k evs) = tail_responses lc db h p)"
proof (induction evs arbitrary: st hs p)
  case Nil
  with settled_tail_script [of lc db p] show ?case by simp
next
  case (Cons ev evs)
  from Cons.prems(3) have nd: "Disconnect \<notin> set evs" and ne: "ev \<noteq> Disconnect" by auto
  show ?case
  proof (cases "ev = LookupDone k")
    case True
    let ?r = "resume lc db st p"
    let ?hs = "hs[k := slot (snd ?r)]"
    have s: "step lc db (st, hs) (LookupDone k) = ((st, ?hs), fst ?r)"
      using Cons.prems(1,2) by (rule step_resume_slot)
    have o: "own lc db (st, hs) k (ev # evs) = fst ?r @ own lc db (st, ?hs) k evs"
      unfolding True by (simp only: own_Cons_resume s fst_conv snd_conv)
    from Cons.prems(1) have k: "k < length ?hs" by simp
    show ?thesis
    proof (cases "snd ?r")
      case (Suspended p')
      with Cons.prems(1) have sl: "?hs ! k = Some p'" by simp
      from resume_script [of lc db st p] Suspended
      have ts: "tail_script lc db p = lookups (fst ?r) @ tail_script lc db p'" by simp
      from Cons.prems(4) True
      have "settled (tail_script lc db p') \<le> length (filter (\<lambda>ev. ev = LookupDone k) evs)"
        by (simp add: ts settled_append settled_resume)
      from Cons.IH [OF k sl nd this, of st]
      have l: "lookups (own lc db (st, ?hs) k evs) = tail_script lc db p'"
        and r: "sessionPromise st = Some h \<longrightarrow>
            sends (own lc db (st, ?hs) k evs) = tail_responses lc db h p'" by simp_all
      have "sends (fst ?r @ own lc db (st, ?hs) k evs) = tail_responses lc db h p"
        if sp: "sessionPromise st = Some h"
        using resume_responses [OF sp, of lc db p] Suspended r sp by (simp add: sends_append)
      with l ts show ?thesis unfolding o by (simp add: lookups_append)
    next
      case Finished
      with Cons.prems(1) have "?hs ! k = None" by simp
      from own_finished [OF k this] have e: "own lc db (st, ?hs) k evs = []" .
      from resume_script [of lc db st p] Finished
      have ts: "tail_script lc db p = lookups (fst ?r)" by simp
      have "sends (fst ?r) = tail_responses lc db h p" if sp: "sessionPromise st = Some h"
        using resume_responses [OF sp, of lc db p] Finished by simp
      with ts show ?thesis unfolding o e by simp
    next
      case Thrown
      with Cons.prems(1) have "?hs ! k = None" by simp
      from own_finished [OF k this] have e: "own lc db (st, ?hs) k evs = []" .
      from resume_script [of lc db st p] Thrown
      have ts: "tail_script lc db p = lookups (fst ?r)" by simp
      have "sends (fst ?r) = tail_responses lc db h p" if sp: "sessionPromise st = Some h"
        using resume_responses [OF sp, of lc db p] Thrown by simp
      with ts show ?thesis unfolding o e by simp
    qed
  next
    case False
    from step_other_slot [OF Cons.prems(1) False, of lc db st] Cons.prems(2)
    have k: "k < length (snd (fst (step lc db (st, hs) ev)))"
      and n: "snd (fst (step lc db (st, hs) ev)) ! k = Some p" by simp_all
    have o: "own lc db (st, hs) k (ev # evs)
        = own lc db (fst (fst (step lc db (st, hs) ev)), snd (fst (step lc db (st, hs) ev))) k evs"
      by (simp only: own_Cons_other [OF False] prod.collapse)
    from Cons.prems(4) False
    have c: "settled (tail_script lc db p) \<le> length (filter (\<lambda>ev. ev = LookupDone k) evs)"
      by simp
    from Cons.IH [OF k n nd c, of "fst (fst (step lc db (st, hs) ev))"]
      step_sessionPromise [OF ne, of lc db st hs]
    show ?thesis by (simp only: o) simp
  qed
qed

lemma script_has_query:
  "\<forall>fc \<in> set R. has_query fc \<Longrightarrow>
   script lc db R
     = concat (map (\<lambda>fc. [LookupCall (query_of (fc_args fc)),
                            LookupResolved (projr (searchKnowledgeBase lc db (query_of (fc_args fc))))])
                   R)
   \<and> responses lc db h R
     = map (\<lambda>fc. (h, fc_id fc, fc_name fc,
                    projr (searchKnowledgeBase lc db (query_of (fc_args fc))))) R"
proof (induction R)
  case Nil
  show ?case by simp
next
  case (Cons fc R)
  from Cons.prems obtain q where q: "fc_args fc = Query q"
    by (auto split: fc_args.splits)
  have "\<exists>r. searchKnowledgeBase lc db (Some q) = Inr r"
    by (simp add: searchKnowledgeBase_def Let_def)
  then obtain r where r: "searchKnowledgeBase lc db (Some q) = Inr r" by blast
  from Cons show ?case by (simp add: q r)
qed

text \<open>
  Claim C4. An inbound event with the function calls \<open>fcs\<close> arrives in any
  configuration (other handlers may be suspended) and is followed by any events
  (lookups of this and of other handlers settle in any order, messages arrive,
  sources end, \<open>disconnect\<close> is called). Its handler takes the slot \<open>length hs\<close>. The
  lookup events of this handler (the call made while the message is handled, then
  those of its resumptions) are an initial part of the script of the recognized calls
  of \<open>fcs\<close> in their order, in which each lookup is called only after the one before
  it has settled. The tool responses it sends are an initial part of the responses to
  those calls, in the same order. When \<open>disconnect\<close> is not called and the lookups of
  the handler settle as often as the script asks, the handler performs the whole
  script and sends all the responses. When every recognized call carries a string
  query, the script is the call and the resolution of each recognized call in turn,
  and the responses are one for each recognized call, with its id, its name and the
  text its lookup resolved to.
\<close>

theorem C4_sequential_in_order:
  assumes tc: "toolCall m = Some fcs"
  shows
    "prefix (lookups (snd (step lc db (st, hs) (Message now m)))
              @ lookups (own lc db (fst (step lc db (st, hs) (Message now m))) (length hs) evs))
            (script lc db (recognized fcs))
     \<and> prefix (sends (own lc db (fst (step lc db (st, hs) (Message now m))) (length hs) evs))
          (case sessionPromise st of
             Some session \<Rightarrow> responses lc db session (recognized fcs)
           | None \<Rightarrow> [])
     \<and> (Disconnect \<notin> set evs
          \<and> settled (script lc db (recognized fcs))
              \<le> length (filter (\<lambda>ev. ev = LookupDone (length hs)) evs) \<longrightarrow>
          lookups (snd (step lc db (st, hs) (Message now m)))
              @ lookups (own lc db (fst (step lc db (st, hs) (Message now m))) (length hs) evs)
            = script lc db (recognized fcs)
          \<and> sends (own lc db (fst (step lc db (st, hs) (Message now m))) (length hs) evs)
            = (case sessionPromise st of
                 Some session \<Rightarrow> responses lc db session (recognized fcs)
               | None \<Rightarrow> []))
     \<and> ((\<forall>fc \<in> set (recognized fcs). has_query fc) \<longrightarrow>
          script lc db (recognized fcs)
            = concat (map (\<lambda>fc. [LookupCall (query_of (fc_args fc)),
                                   LookupResolved
                                     (projr (searchKnowledgeBase lc db (query_of (fc_args fc))))])
                          (recognized fcs))
          \<and> (\<forall>session. responses lc db session (recognized fcs)
                = map (\<lambda>fc. (session, fc_id fc, fc_name fc,
                               projr (searchKnowledgeBase lc db (query_of (fc_args fc)))))
                      (recognized fcs)))"
proof -
  define st' where "st' = fst (fst (handleMessage st now m))"
  define hs' where "hs' = hs @ [slot (snd (tool_loop fcs))]"
  define H where "H = lookups (fst (tool_loop fcs)) @ lookups (own lc db (st', hs') (length hs) evs)"
  define S where "S = sends (own lc db (st', hs') (length hs) evs)"
  define R where "R = (case sessionPromise st of
             Some session \<Rightarrow> responses lc db session (recognized fcs)
           | None \<Rightarrow> [])"
  have sp: "sessionPromise st' = sessionPromise st"
    by (simp add: st'_def sessionPromise_handleMessage)
  have s: "step lc db (st, hs) (Message now m) = ((st', hs'), snd (fst (handleMessage st now m)))"
    by (simp add: Let_def st'_def hs'_def outcome_handleMessage tc)
  have l0: "lookups (snd (fst (handleMessage st now m))) = lookups (fst (tool_loop fcs))"
    by (simp add: lookups_handleMessage tc)
  have k: "length hs < length hs'" by (simp add: hs'_def)
  have sl: "hs' ! length hs = slot (snd (tool_loop fcs))" by (simp add: hs'_def)
  have main: "prefix H (script lc db (recognized fcs)) \<and> prefix S R
      \<and> (Disconnect \<notin> set evs
          \<and> settled (script lc db (recognized fcs))
              \<le> length (filter (\<lambda>ev. ev = LookupDone (length hs)) evs) \<longrightarrow>
          H = script lc db (recognized fcs) \<and> S = R)"
  proof (cases "snd (tool_loop fcs)")
    case (Suspended p)
    with sl have slp: "hs' ! length hs = Some p" by simp
    from tool_loop_script [where fcs = fcs and lc = lc and db = db] Suspended
    have sc: "script lc db (recognized fcs) = lookups (fst (tool_loop fcs)) @ tail_script lc db p"
      by simp
    from tool_loop_responses [where fcs = fcs and lc = lc and db = db] Suspended
    have rs: "responses lc db h (recognized fcs) = tail_responses lc db h p" for h
      by simp
    have p1: "prefix H (script lc db (recognized fcs))"
      using own_prefix_lookups [OF k slp, of lc db st' evs] by (simp add: H_def sc)
    have p2: "prefix S R"
    proof (cases "sessionPromise st")
      case None
      with sp own_dead [of st' lc db hs' "length hs" evs] show ?thesis
        by (simp add: S_def)
    next
      case (Some h)
      with sp own_prefix_sends [OF k slp, of st' h lc db evs] show ?thesis
        by (simp add: S_def R_def rs)
    qed
    have p3: "H = script lc db (recognized fcs) \<and> S = R"
      if nd: "Disconnect \<notin> set evs"
        and en: "settled (script lc db (recognized fcs))
              \<le> length (filter (\<lambda>ev. ev = LookupDone (length hs)) evs)"
    proof -
      from en have "settled (tail_script lc db p)
              \<le> length (filter (\<lambda>ev. ev = LookupDone (length hs)) evs)"
        by (simp add: sc settled_append settled_tool_loop)
      from own_complete [OF k slp nd this, of st']
      have a: "lookups (own lc db (st', hs') (length hs) evs) = tail_script lc db p"
        and b: "sessionPromise st' = Some h \<longrightarrow>
            sends (own lc db (st', hs') (length hs) evs) = tail_responses lc db h p" for h
        by simp_all
      have "S = R"
      proof (cases "sessionPromise st")
        case None
        with sp own_dead [of st' lc db hs' "length hs" evs] show ?thesis
          by (simp add: S_def R_def)
      next
        case (Some h)
        with sp b [of h] show ?thesis by (simp add: S_def R_def rs)
      qed
      with a show ?thesis by (simp add: H_def sc)
    qed
    from p1 p2 p3 show ?thesis by blast
  next
    case Finished
    with sl have "hs' ! length hs = None" by simp
    from own_finished [OF k this] have e: "own lc db (st', hs') (length hs) evs = []" .
    from tool_loop_script [where fcs = fcs and lc = lc and db = db] Finished
    have sc: "script lc db (recognized fcs) = lookups (fst (tool_loop fcs))" by simp
    from tool_loop_responses [where fcs = fcs and lc = lc and db = db] Finished
    have rs: "responses lc db h (recognized fcs) = []" for h by simp
    show ?thesis by (simp add: H_def S_def R_def e sc rs split: option.splits)
  next
    case Thrown
    with sl have "hs' ! length hs = None" by simp
    from own_finished [OF k this] have e: "own lc db (st', hs') (length hs) evs = []" .
    from tool_loop_script [where fcs = fcs and lc = lc and db = db] Thrown
    have sc: "script lc db (recognized fcs) = lookups (fst (tool_loop fcs))" by simp
    from tool_loop_responses [where fcs = fcs and lc = lc and db = db] Thrown
    have rs: "responses lc db h (recognized fcs) = []" for h by simp
    show ?thesis by (simp add: H_def S_def R_def e sc rs split: option.splits)
  qed
  have wf: "script lc db (recognized fcs)
            = concat (map (\<lambda>fc. [LookupCall (query_of (fc_args fc)),
                                   LookupResolved
                                     (projr (searchKnowledgeBase lc db (query_of (fc_args fc))))])
                          (recognized fcs))
          \<and> (\<forall>session. responses lc db session (recognized fcs)
                = map (\<lambda>fc. (session, fc_id fc, fc_name fc,
                               projr (searchKnowledgeBase lc db (query_of (fc_args fc)))))
                      (recognized fcs))"
    if "\<forall>fc \<in> set (recognized fcs). has_query fc"
    using script_has_query [OF that] by blast
  from main wf show ?thesis
    unfolding s fst_conv snd_conv l0 H_def S_def R_def by blast
qed

text \<open>
  An event with two recognized calls and one unrecognized call between them arrives
  while another handler is suspended in slot 0; that handler's lookup settles first,
  and a transcript message arrives between the two lookups of the event.
\<close>

theorem C4_sequential_in_order_witness:
  "toolCall \<lparr>audio = None, interrupted = False, inputTranscription = None,
             outputTranscription = None,
             toolCall = Some [\<lparr>fc_id = js ''1'', fc_name = js ''search_knowledge_base'',
                                fc_args = Query (js ''a'')\<rparr>,
                              \<lparr>fc_id = js ''x'', fc_name = js ''other_tool'',
                                fc_args = Query (js ''b'')\<rparr>,
                              \<lparr>fc_id = js ''2'', fc_name = js ''search_knowledge_base'',
                                fc_args = Query (js ''Policy'')\<rparr>]\<rparr>
     = Some [\<lparr>fc_id = js ''1'', fc_name = js ''search_knowledge_base'',
                fc_args = Query (js ''a'')\<rparr>,
             \<lparr>fc_id = js ''x'', fc_name = js ''other_tool'', fc_args = Query (js ''b'')\<rparr>,
             \<lparr>fc_id = js ''2'', fc_name = js ''search_knowledge_base'',
                fc_args = Query (js ''Policy'')\<rparr>]
   \<and> Disconnect \<notin> set [LookupDone 0, LookupDone 1,
         Message 1 \<lparr>audio = None, interrupted = False, inputTranscription = Some (js ''hi''),
            outputTranscription = None, toolCall = None\<rparr>,
         LookupDone 1]
   \<and> sends (own toLowerCase_ascii []
        (fst (step toLowerCase_ascii []
          (\<lparr>sessionPromise = Some 7, outputAudioContext = True, outputNode = True,
             nextStartTime = 0, sources = [], created = 0\<rparr>,
           [Some (\<lparr>fc_id = js ''3'', fc_name = js ''search_knowledge_base'',
                    fc_args = Query (js ''c'')\<rparr>, [])])
          (Message 0 \<lparr>audio = None, interrupted = False, inputTranscription = None,
             outputTranscription = None,
             toolCall = Some [\<lparr>fc_id = js ''1'', fc_name = js ''search_knowledge_base'',
                                fc_args = Query (js ''a'')\<rparr>,
                              \<lparr>fc_id = js ''x'', fc_name = js ''other_tool'',
                                fc_args = Query (js ''b'')\<rparr>,
                              \<lparr>fc_id = js ''2'', fc_name = js ''search_knowledge_base'',
                                fc_args = Query (js ''Policy'')\<rparr>]\<rparr>)))
        1
        [LookupDone 0, LookupDone 1,
         Message 1 \<lparr>audio = None, interrupted = False, inputTranscription = Some (js ''hi''),
            outputTranscription = None, toolCall = None\<rparr>,
         LookupDone 1])
     = [(7, js ''1'', js ''search_knowledge_base'', RAG_NOT_FOUND),
        (7, js ''2'', js ''search_knowledge_base'', INDEX_POLICIES)]
   \<and> script toLowerCase_ascii []
        [\<lparr>fc_id = js ''1'', fc_name = js ''search_knowledge_base'', fc_args = Query (js ''a'')\<rparr>,
         \<lparr>fc_id = js ''2'', fc_name = js ''search_knowledge_base'',
           fc_args = Query (js ''Policy'')\<rparr>]
     = [LookupCall (Some (js ''a'')), LookupResolved RAG_NOT_FOUND,
        LookupCall (Some (js ''Policy'')), LookupResolved INDEX_POLICIES]"
  using C4_sequential_in_order [where lc = toLowerCase_ascii and db = "[]"
      and m = "\<lparr>audio = None, interrupted = False, inputTranscription = None,
             outputTranscription = None,
             toolCall = Some [\<lparr>fc_id = js ''1'', fc_name = js ''search_knowledge_base'',
                                fc_args = Query (js ''a'')\<rparr>,
                              \<lparr>fc_id = js ''x'', fc_name = js ''other_tool'',
                                fc_args = Query (js ''b'')\<rparr>,
                              \<lparr>fc_id = js ''2'', fc_name = js ''search_knowledge_base'',
                                fc_args = Query (js ''Policy'')\<rparr>]\<rparr>"
      and fcs = "[\<lparr>fc_id = js ''1'', fc_name = js ''search_knowledge_base'',
                    fc_args = Query (js ''a'')\<rparr>,
                  \<lparr>fc_id = js ''x'', fc_name = js ''other_tool'', fc_args = Query (js ''b'')\<rparr>,
                  \<lparr>fc_id = js ''2'', fc_name = js ''search_knowledge_base'',
                    fc_args = Query (js ''Policy'')\<rparr>]"
      and st = "\<lparr>sessionPromise = Some 7, outputAudioContext = True, outputNode = True,
             nextStartTime = 0, sources = [], created = 0\<rparr>"
      and hs = "[Some (\<lparr>fc_id = js ''3'', fc_name = js ''search_knowledge_base'',
                    fc_args = Query (js ''c'')\<rparr>, [])]"
      and now = 0
      and evs = "[LookupDone 0, LookupDone 1,
         Message 1 \<lparr>audio = None, interrupted = False, inputTranscription = Some (js ''hi''),
            outputTranscription = None, toolCall = None\<rparr>,
         LookupDone 1]"]
  by (simp add: recognized_def searchKnowledgeBase_def toLowerCase_ascii_def js_def
      INDEX_POLICIES_def RAG_NOT_FOUND_def del: own.simps step.simps)

text \<open>
  A recognized call whose arguments hold no string query: its lookup is called and
  rejects, the loop is left, and the call after it gets neither a lookup nor a
  response.
\<close>

lemma script_rejecting_example:
  "script toLowerCase_ascii []
     [\<lparr>fc_id = js ''1'', fc_name = js ''search_knowledge_base'',
        fc_args = NoQuery (js ''undefined'')\<rparr>,
      \<lparr>fc_id = js ''2'', fc_name = js ''search_knowledge_base'', fc_args = Query (js ''a'')\<rparr>]
     = [LookupCall None, LookupRejected]
   \<and> responses toLowerCase_ascii [] 7
     [\<lparr>fc_id = js ''1'', fc_name = js ''search_knowledge_base'',
        fc_args = NoQuery (js ''undefined'')\<rparr>,
      \<lparr>fc_id = js ''2'', fc_name = js ''search_knowledge_base'', fc_args = Query (js ''a'')\<rparr>]
     = []"
  by (simp add: searchKnowledgeBase_def)

end
